theory Spec2Isabelle
  imports Complex_Main "HOL-Library.Word"
begin

section \<open>Shared DOM vocabulary\<close>

text \<open>
  The script manipulates the page through \<^verbatim>\<open>classList\<close>, attributes and text. A class
  list is an ordered set of tokens: \<^verbatim>\<open>add\<close> appends a token that is absent,
  \<^verbatim>\<open>remove\<close> deletes it, and \<^verbatim>\<open>toggle(token, force)\<close> adds when \<open>force\<close> is true and
  removes otherwise.
\<close>

type_synonym classList = "string list"

definition class_add :: "string \<Rightarrow> classList \<Rightarrow> classList" where
  "class_add c cs = (if c \<in> set cs then cs else cs @ [c])"

definition class_remove :: "string \<Rightarrow> classList \<Rightarrow> classList" where
  "class_remove c cs = filter (\<lambda>x. x \<noteq> c) cs"

definition class_toggle :: "string \<Rightarrow> bool \<Rightarrow> classList \<Rightarrow> classList" where
  "class_toggle c force cs = (if force then class_add c cs else class_remove c cs)"

definition class_contains :: "string \<Rightarrow> classList \<Rightarrow> bool" where
  "class_contains c cs = (c \<in> set cs)"

text \<open>
  A script string is a sequence of UTF-16 code units; \<open>js\<close> writes an ASCII literal of
  the source as such a string.
\<close>

type_synonym jsstring = "16 word list"

definition js :: "string \<Rightarrow> jsstring" where
  "js s = map of_char s"

section \<open>Module 1: MobileMenu\<close>

text \<open>
  \<^verbatim>\<open>MobileMenu.init\<close> looks up \<^verbatim>\<open>#menu-toggle\<close> and the first \<^verbatim>\<open>.nav\<close> element and
  returns without installing anything when either is missing. Once both exist the state
  the listeners read and write is the checkbox's \<^verbatim>\<open>checked\<close> flag and the class list of
  the navigation container.
\<close>

record menu =
  checked :: bool
  nav_classes :: classList

definition MobileMenu_init :: "bool option \<Rightarrow> classList option \<Rightarrow> menu option" where
  "MobileMenu_init menuToggle nav =
     (case menuToggle of
        None \<Rightarrow> None
      | Some c \<Rightarrow> (case nav of None \<Rightarrow> None
                   | Some cl \<Rightarrow> Some \<lparr>checked = c, nav_classes = cl\<rparr>))"

text \<open>The listener of the toggle's \<^verbatim>\<open>change\<close> event.\<close>

definition on_change :: "menu \<Rightarrow> menu" where
  "on_change m = m\<lparr>nav_classes := class_toggle ''active'' (checked m) (nav_classes m)\<rparr>"

text \<open>The \<^verbatim>\<open>click\<close> listener attached to every \<^verbatim>\<open>.nav a\<close> link.\<close>

definition on_link_click :: "menu \<Rightarrow> menu" where
  "on_link_click m =
     m\<lparr>checked := False, nav_classes := class_remove ''active'' (nav_classes m)\<rparr>"

text \<open>
  The document's \<^verbatim>\<open>click\<close> listener. \<open>in_nav\<close> is \<^verbatim>\<open>nav.contains(e.target)\<close> and
  \<open>in_toggle\<close> is \<^verbatim>\<open>menuToggle.contains(e.target)\<close>.
\<close>

definition on_document_click :: "bool \<Rightarrow> bool \<Rightarrow> menu \<Rightarrow> menu" where
  "on_document_click in_nav in_toggle m =
     (if \<not> in_nav \<and> \<not> in_toggle \<and> checked m
      then m\<lparr>checked := False, nav_classes := class_remove ''active'' (nav_classes m)\<rparr>
      else m)"

text \<open>The document's \<^verbatim>\<open>keydown\<close> listener; \<open>key\<close> is \<^verbatim>\<open>e.key\<close>.\<close>

definition on_keydown :: "string \<Rightarrow> menu \<Rightarrow> menu" where
  "on_keydown key m =
     (if key = ''Escape'' \<and> checked m
      then m\<lparr>checked := False, nav_classes := class_remove ''active'' (nav_classes m)\<rparr>
      else m)"

text \<open>
  What the browser dispatches. A user toggle flips the checkbox before the listeners run:
  the click on the control reaches the document listener with the control as target, then
  the \<^verbatim>\<open>change\<close> event fires. A click is described by whether its path passes through a
  \<^verbatim>\<open>.nav a\<close> link, whether its target lies in the navigation container and whether it lies
  in the toggle; the link's listener runs before the click bubbles to the document.
\<close>

datatype menu_event =
    UserToggle
  | Click (on_link: bool) (in_nav: bool) (in_toggle: bool)
  | KeyDown string

fun menu_step :: "menu_event \<Rightarrow> menu \<Rightarrow> menu" where
  "menu_step UserToggle m =
     on_change (on_document_click False True (m\<lparr>checked := \<not> checked m\<rparr>))"
| "menu_step (Click l n t) m =
     on_document_click n t (if l then on_link_click m else m)"
| "menu_step (KeyDown k) m = on_keydown k m"

definition menu_run :: "menu_event list \<Rightarrow> menu \<Rightarrow> menu" where
  "menu_run es m = fold menu_step es m"

text \<open>The navigation container carries the active class exactly when the toggle is checked.\<close>

definition menu_inv :: "menu \<Rightarrow> bool" where
  "menu_inv m = (class_contains ''active'' (nav_classes m) = checked m)"

definition menu_closed :: "menu \<Rightarrow> bool" where
  "menu_closed m = (\<not> checked m \<and> \<not> class_contains ''active'' (nav_classes m))"

section \<open>Module 3: ScrollManager\<close>

text \<open>
  Of \<^verbatim>\<open>PortfolioManager.config\<close> only \<^verbatim>\<open>scrollThreshold\<close> is read by the code; the
  object is exported and mutable, so the threshold is a parameter of the recomputation.
\<close>

record config =
  scrollThreshold :: real
  animationDuration :: real
  breakpoint_mobile :: real
  breakpoint_tablet :: real

definition PortfolioManager_config :: config where
  "PortfolioManager_config =
     \<lparr>scrollThreshold = 300, animationDuration = 300,
      breakpoint_mobile = 768, breakpoint_tablet = 1024\<rparr>"

text \<open>
  The module's two variables, the class list of the button it created (\<open>None\<close> is
  \<^verbatim>\<open>null\<close>), the number of \<^verbatim>\<open>updateScrollButton\<close> callbacks handed to
  \<^verbatim>\<open>requestAnimationFrame\<close> and not yet run, whether the scroll listener is installed,
  and the window's vertical offset.
\<close>

record scroll_state =
  scrollToTopBtn :: "classList option"
  ticking :: bool
  raf_queue :: nat
  listening :: bool
  scrollY :: real

definition ScrollManager_loaded :: "real \<Rightarrow> scroll_state" where
  "ScrollManager_loaded y =
     \<lparr>scrollToTopBtn = None, ticking = False, raf_queue = 0, listening = False, scrollY = y\<rparr>"

definition createScrollToTopButton :: "scroll_state \<Rightarrow> scroll_state" where
  "createScrollToTopButton s = s\<lparr>scrollToTopBtn := Some [''scroll-to-top'']\<rparr>"

definition setupScrollListener :: "scroll_state \<Rightarrow> scroll_state" where
  "setupScrollListener s = s\<lparr>listening := True\<rparr>"

definition ScrollManager_init :: "scroll_state \<Rightarrow> scroll_state" where
  "ScrollManager_init s = setupScrollListener (createScrollToTopButton s)"

definition on_scroll :: "scroll_state \<Rightarrow> scroll_state" where
  "on_scroll s =
     (if \<not> ticking s then s\<lparr>raf_queue := Suc (raf_queue s), ticking := True\<rparr> else s)"

definition updateScrollButton :: "config \<Rightarrow> scroll_state \<Rightarrow> scroll_state" where
  "updateScrollButton cfg s =
     (case scrollToTopBtn s of
        None \<Rightarrow> s
      | Some cl \<Rightarrow>
          s\<lparr>scrollToTopBtn :=
               Some (class_toggle ''visible'' (scrollY s > scrollThreshold cfg) cl),
            ticking := False\<rparr>)"

text \<open>
  The browser's side: a scroll moves the window and calls the listener when one is
  installed; a frame runs every queued callback once and empties the queue.
\<close>

datatype scroll_event = Scroll real | Frame

fun scroll_step :: "config \<Rightarrow> scroll_event \<Rightarrow> scroll_state \<Rightarrow> scroll_state" where
  "scroll_step cfg (Scroll y) s =
     (if listening s then on_scroll (s\<lparr>scrollY := y\<rparr>) else s\<lparr>scrollY := y\<rparr>)"
| "scroll_step cfg Frame s =
     ((updateScrollButton cfg) ^^ (raf_queue s)) (s\<lparr>raf_queue := 0\<rparr>)"

definition scroll_run :: "config \<Rightarrow> scroll_event list \<Rightarrow> scroll_state \<Rightarrow> scroll_state" where
  "scroll_run cfg es s = fold (scroll_step cfg) es s"

definition button_visible :: "scroll_state \<Rightarrow> bool" where
  "button_visible s =
     (case scrollToTopBtn s of None \<Rightarrow> False | Some cl \<Rightarrow> class_contains ''visible'' cl)"

text \<open>At most one recomputation is queued, and the flag says whether one is.\<close>

definition scroll_inv :: "scroll_state \<Rightarrow> bool" where
  "scroll_inv s =
     (scrollToTopBtn s \<noteq> None \<and> raf_queue s \<le> 1 \<and> (ticking s = (raf_queue s = 1)))"

section \<open>Module 4: FormManager\<close>

subsection \<open>The form's subtree\<close>

text \<open>
  The submit handler works on the subtree of the form it is attached to. A node is a text
  node or an element with children. Of an element the model keeps what the handler reads
  or writes: which of the three selectors \<^verbatim>\<open>input[type="email"]\<close>, \<^verbatim>\<open>textarea\<close> and
  \<^verbatim>\<open>button[type="submit"]\<close> it matches (an element matches at most one, the tag names
  differ), its class list, its \<^verbatim>\<open>aria-invalid\<close> attribute, its \<^verbatim>\<open>value\<close>, the value
  \<^verbatim>\<open>form.reset()\<close> gives it back, and \<^verbatim>\<open>disabled\<close>.
\<close>

datatype kind = EmailInput | TextArea | SubmitButton | Other

record elem =
  kind :: kind
  classes :: classList
  aria_invalid :: "jsstring option"
  val :: jsstring
  default_val :: jsstring
  disabled :: bool

datatype node = Text jsstring | Elem elem "node list"

text \<open>
  An element is referred to by the child indices that lead to it from the form; the empty
  path is the form itself.
\<close>

type_synonym path = "nat list"

fun children :: "node \<Rightarrow> node list" where
  "children (Text s) = []"
| "children (Elem e cs) = cs"

fun elem_of :: "node \<Rightarrow> elem option" where
  "elem_of (Text s) = None"
| "elem_of (Elem e cs) = Some e"

fun nodeAt :: "node \<Rightarrow> path \<Rightarrow> node option" where
  "nodeAt n [] = Some n"
| "nodeAt n (i # p) = (if i < length (children n) then nodeAt (children n ! i) p else None)"

fun updateAt :: "path \<Rightarrow> (node \<Rightarrow> node) \<Rightarrow> node \<Rightarrow> node" where
  "updateAt [] f n = f n"
| "updateAt (i # p) f (Text s) = Text s"
| "updateAt (i # p) f (Elem e cs) =
     (if i < length cs then Elem e (cs[i := updateAt p f (cs ! i)]) else Elem e cs)"

definition elem_at :: "node \<Rightarrow> path \<Rightarrow> elem option" where
  "elem_at n p = (case nodeAt n p of None \<Rightarrow> None | Some m \<Rightarrow> elem_of m)"

text \<open>A change of an element's own properties; a text node has none.\<close>

fun on_elem :: "(elem \<Rightarrow> elem) \<Rightarrow> node \<Rightarrow> node" where
  "on_elem g (Text s) = Text s"
| "on_elem g (Elem e cs) = Elem (g e) cs"

text \<open>
  \<^verbatim>\<open>querySelector\<close> returns the first descendant in document order that matches, the
  element it is called on excluded; \<open>None\<close> is \<^verbatim>\<open>null\<close>.
\<close>

fun bump :: "path \<Rightarrow> path" where
  "bump [] = []"
| "bump (i # p) = Suc i # p"

fun qs_nodes :: "(elem \<Rightarrow> bool) \<Rightarrow> node list \<Rightarrow> path option" where
  "qs_nodes P [] = None"
| "qs_nodes P (Text s # ns) = map_option bump (qs_nodes P ns)"
| "qs_nodes P (Elem e cs # ns) =
     (if P e then Some [0]
      else case qs_nodes P cs of
             Some p \<Rightarrow> Some (0 # p)
           | None \<Rightarrow> map_option bump (qs_nodes P ns))"

definition querySelector :: "(elem \<Rightarrow> bool) \<Rightarrow> node \<Rightarrow> path option" where
  "querySelector P n = qs_nodes P (children n)"

text \<open>The descendants of a node in document order, as \<^verbatim>\<open>querySelectorAll('*')\<close> lists them.\<close>

fun elems :: "node \<Rightarrow> elem list" where
  "elems (Text s) = []"
| "elems (Elem e cs) = e # concat (map elems cs)"

definition descendants :: "node \<Rightarrow> elem list" where
  "descendants n = concat (map elems (children n))"

definition querySelectorAll :: "(elem \<Rightarrow> bool) \<Rightarrow> node \<Rightarrow> elem list" where
  "querySelectorAll P n = filter P (descendants n)"

text \<open>
  \<^verbatim>\<open>parentElement\<close> of the element at a path; the form's own parent lies outside the
  subtree and is never asked for.
\<close>

definition parentElement :: "path \<Rightarrow> path option" where
  "parentElement p = (if p = [] then None else Some (butlast p))"

text \<open>
  \<^verbatim>\<open>textContent\<close>: reading concatenates the text of all descendants, writing replaces
  the children by one text node, or by nothing when the string is empty.
\<close>

fun textContent :: "node \<Rightarrow> jsstring" where
  "textContent (Text s) = s"
| "textContent (Elem e cs) = concat (map textContent cs)"

fun setTextContent :: "jsstring \<Rightarrow> node \<Rightarrow> node" where
  "setTextContent s (Text t) = Text s"
| "setTextContent s (Elem e cs) = Elem e (if s = [] then [] else [Text s])"

fun appendChild :: "node \<Rightarrow> node \<Rightarrow> node" where
  "appendChild c (Text t) = Text t"
| "appendChild c (Elem e cs) = Elem e (cs @ [c])"

definition is_email :: "elem \<Rightarrow> bool" where
  "is_email e = (kind e = EmailInput)"

definition is_textarea :: "elem \<Rightarrow> bool" where
  "is_textarea e = (kind e = TextArea)"

definition is_submit :: "elem \<Rightarrow> bool" where
  "is_submit e = (kind e = SubmitButton)"

definition has_error :: "elem \<Rightarrow> bool" where
  "has_error e = class_contains ''error'' (classes e)"

definition is_error_message :: "elem \<Rightarrow> bool" where
  "is_error_message e = class_contains ''error-message'' (classes e)"

subsection \<open>isValidEmail\<close>

text \<open>
  The class \<^verbatim>\<open>\s\<close> of the pattern and the characters \<^verbatim>\<open>trim\<close> strips are the same
  set: white space and line terminators.
\<close>

definition is_space :: "16 word \<Rightarrow> bool" where
  "is_space c = (c \<in> set [0x9, 0xA, 0xB, 0xC, 0xD, 0x20, 0xA0, 0x1680,
                           0x2000, 0x2001, 0x2002, 0x2003, 0x2004, 0x2005, 0x2006, 0x2007,
                           0x2008, 0x2009, 0x200A, 0x2028, 0x2029, 0x202F, 0x205F, 0x3000,
                           0xFEFF])"

definition trim :: "jsstring \<Rightarrow> jsstring" where
  "trim s = rev (dropWhile is_space (rev (dropWhile is_space s)))"

text \<open>
  The pattern \<^verbatim>\<open>/^[^\s@]+@[^\s@]+\.[^\s@]+$/\<close> is a sequence of items between the two
  anchors, each a literal character or a character class repeated one or more times.
  \<open>rx_match\<close> tries, for a repetition, to go on with the same item and then with the
  items after it; it succeeds only at the end of the string.
\<close>

datatype rx = Lit "16 word" | OneOrMore "16 word \<Rightarrow> bool"

fun rx_match :: "rx list \<Rightarrow> jsstring \<Rightarrow> bool" where
  "rx_match [] s = (s = [])"
| "rx_match (Lit c # r) [] = False"
| "rx_match (Lit c # r) (x # xs) = (x = c \<and> rx_match r xs)"
| "rx_match (OneOrMore P # r) [] = False"
| "rx_match (OneOrMore P # r) (x # xs) =
     (P x \<and> (rx_match (OneOrMore P # r) xs \<or> rx_match r xs))"

definition not_space_at :: "16 word \<Rightarrow> bool" where
  "not_space_at c = (\<not> is_space c \<and> c \<noteq> 0x40)"

definition isValidEmail :: "jsstring \<Rightarrow> bool" where
  "isValidEmail email =
     rx_match [OneOrMore not_space_at, Lit 0x40, OneOrMore not_space_at, Lit 0x2E,
               OneOrMore not_space_at] email"

subsection \<open>showError, clearErrors, validateForm\<close>

text \<open>The element \<^verbatim>\<open>document.createElement('span')\<close> with its class set.\<close>

definition new_error_span :: node where
  "new_error_span =
     Elem \<lparr>kind = Other, classes = [''error-message''], aria_invalid = None,
           val = [], default_val = [], disabled = False\<rparr> []"

definition mark_invalid :: "elem \<Rightarrow> elem" where
  "mark_invalid e =
     e\<lparr>classes := class_add ''error'' (classes e), aria_invalid := Some (js ''true'')\<rparr>"

text \<open>
  \<^verbatim>\<open>showError(element, message)\<close>. The result \<open>None\<close> stands for the exception the
  script would raise when \<^verbatim>\<open>element.parentElement\<close> is \<^verbatim>\<open>null\<close>. \<open>errorEl\<close> is
  the path of the element whose text is set: the first \<^verbatim>\<open>.error-message\<close> descendant
  of the parent, or the span appended as the parent's last child when there is none.
\<close>

definition showError :: "node \<Rightarrow> path option \<Rightarrow> jsstring \<Rightarrow> node option" where
  "showError form element message =
     (case element of
        None \<Rightarrow> Some form
      | Some p \<Rightarrow>
          (let form1 = updateAt p (on_elem mark_invalid) form in
           case parentElement p of
             None \<Rightarrow> None
           | Some pp \<Rightarrow>
               (case nodeAt form1 pp of
                  None \<Rightarrow> None
                | Some parent \<Rightarrow>
                    (case querySelector is_error_message parent of
                       None \<Rightarrow>
                         (let form2 = updateAt pp (appendChild new_error_span) form1;
                              errorEl = pp @ [length (children parent)]
                          in Some (updateAt errorEl (setTextContent message) form2))
                     | Some q \<Rightarrow>
                         Some (updateAt (pp @ q) (setTextContent message) form1)))))"

text \<open>
  \<^verbatim>\<open>clearErrors(form)\<close>. The first loop visits every descendant that carries the
  class \<^verbatim>\<open>error\<close>; the second removes every \<^verbatim>\<open>.error-message\<close> descendant, and with
  it its subtree.
\<close>

definition unmark :: "elem \<Rightarrow> elem" where
  "unmark e =
     (if has_error e
      then e\<lparr>classes := class_remove ''error'' (classes e), aria_invalid := None\<rparr>
      else e)"

fun unmark_all :: "node \<Rightarrow> node" where
  "unmark_all (Text s) = Text s"
| "unmark_all (Elem e cs) = Elem (unmark e) (map unmark_all cs)"

fun is_error_message_node :: "node \<Rightarrow> bool" where
  "is_error_message_node (Text s) = False"
| "is_error_message_node (Elem e cs) = is_error_message e"

fun remove_error_messages :: "node \<Rightarrow> node" where
  "remove_error_messages (Text s) = Text s"
| "remove_error_messages (Elem e cs) =
     Elem e (map remove_error_messages (filter (\<lambda>c. \<not> is_error_message_node c) cs))"

fun on_children :: "(node \<Rightarrow> node) \<Rightarrow> node \<Rightarrow> node" where
  "on_children f (Text s) = Text s"
| "on_children f (Elem e cs) = Elem e (map f cs)"

definition clearErrors :: "node \<Rightarrow> node" where
  "clearErrors form = remove_error_messages (on_children unmark_all form)"

text \<open>The \<^verbatim>\<open>value\<close> of the element a reference points to.\<close>

definition value_at :: "node \<Rightarrow> path \<Rightarrow> jsstring" where
  "value_at form p = (case elem_at form p of None \<Rightarrow> [] | Some e \<Rightarrow> val e)"

text \<open>
  \<^verbatim>\<open>validateForm(form)\<close> returns whether the form is valid, together with the form as
  the calls of \<^verbatim>\<open>showError\<close> and \<^verbatim>\<open>clearErrors\<close> leave it.
\<close>

definition validateForm :: "node \<Rightarrow> (bool \<times> node) option" where
  "validateForm form =
     (let email = querySelector is_email form;
          textarea = querySelector is_textarea form
      in if (case email of None \<Rightarrow> True | Some p \<Rightarrow> trim (value_at form p) = [])
         then map_option (Pair False) (showError form email (js ''Email is required''))
         else if (case email of None \<Rightarrow> True | Some p \<Rightarrow> \<not> isValidEmail (value_at form p))
         then map_option (Pair False) (showError form email (js ''Please enter a valid email''))
         else if (case textarea of None \<Rightarrow> True | Some q \<Rightarrow> trim (value_at form q) = [])
         then map_option (Pair False) (showError form textarea (js ''Message is required''))
         else Some (True, clearErrors form))"

subsection \<open>handleSubmit\<close>

text \<open>
  What \<^verbatim>\<open>setTimeout\<close> is given: the delay in milliseconds and, besides the form, the
  two variables the callback closes over: the button and its original text.
\<close>

record timer =
  delay :: nat
  submitBtn :: path
  originalText :: jsstring

text \<open>The text \<^verbatim>\<open>'\<checkmark> Message Sent'\<close>; the check mark is U+2713.\<close>

definition message_sent :: jsstring where
  "message_sent = 0x2713 # js '' Message Sent''"

text \<open>
  \<^verbatim>\<open>handleSubmit(e)\<close> on the form \<^verbatim>\<open>e.target\<close> gives the form as it is left and the
  timers it has set. \<^verbatim>\<open>e.preventDefault()\<close> changes nothing in the form's subtree and
  is left out.
\<close>

definition handleSubmit :: "node \<Rightarrow> (node \<times> timer list) option" where
  "handleSubmit form =
     (case validateForm form of
        None \<Rightarrow> None
      | Some (valid, form1) \<Rightarrow>
          if \<not> valid then Some (form1, [])
          else (case querySelector is_submit form1 of
                  None \<Rightarrow> Some (form1, [])
                | Some b \<Rightarrow>
                    (let original = (case nodeAt form1 b of None \<Rightarrow> [] | Some n \<Rightarrow> textContent n);
                         form2 = updateAt b (setTextContent message_sent) form1;
                         form3 = updateAt b (on_elem (\<lambda>e. e\<lparr>disabled := True\<rparr>)) form2
                     in Some (form3, [\<lparr>delay = 2000, submitBtn = b, originalText = original\<rparr>]))))"




text \<open>
  Between two submissions the user types: an edit sets the \<^verbatim>\<open>value\<close> of the element
  at a path. A session is a sequence of rounds, each a list of edits followed by a
  submission. The timers a round sets are dropped: a session describes what happens
  before any of them fires.
\<close>

definition user_edit :: "path \<times> jsstring \<Rightarrow> node \<Rightarrow> node" where
  "user_edit pv form = updateAt (fst pv) (on_elem (\<lambda>e. e\<lparr>val := snd pv\<rparr>)) form"

fun session :: "(path \<times> jsstring) list list \<Rightarrow> node \<Rightarrow> node option" where
  "session [] form = Some form"
| "session (edits # rounds) form =
     (case handleSubmit (fold user_edit edits form) of
        None \<Rightarrow> None
      | Some (form1, ts) \<Rightarrow> session rounds form1)"

section \<open>Module 5: PerformanceOptimizer, lazy images\<close>

text \<open>
  An image is described by what the observer callback touches: the \<^verbatim>\<open>src\<close> property,
  \<^verbatim>\<open>dataset.src\<close> (\<open>None\<close> when the \<^verbatim>\<open>data-src\<close> attribute is absent, so that the read
  gives \<^verbatim>\<open>undefined\<close>) and the class list. Images are identified by their position in
  the document.
\<close>

record img =
  src :: jsstring
  data_src :: "jsstring option"
  img_classes :: classList

text \<open>\<^verbatim>\<open>img.dataset.src || img.src\<close>: \<^verbatim>\<open>undefined\<close> and the empty string are falsy.\<close>

definition pending_or_src :: "img \<Rightarrow> jsstring" where
  "pending_or_src im =
     (case data_src im of None \<Rightarrow> src im | Some d \<Rightarrow> if d = [] then src im else d)"

text \<open>The two assignments of the callback's body that change the image.\<close>

definition load_img :: "img \<Rightarrow> img" where
  "load_img im = im\<lparr>src := pending_or_src im, img_classes := class_add ''loaded'' (img_classes im)\<rparr>"

text \<open>
  \<open>observed\<close> are the targets of \<^verbatim>\<open>imageObserver\<close>; \<open>load_log\<close> records, in order, the
  image of every execution of the body of the \<^verbatim>\<open>if (entry.isIntersecting)\<close> block. It
  is not a variable of the script: it is what the properties below count.
\<close>

record lazy_state =
  images :: "img list"
  observed :: "nat list"
  load_log :: "nat list"

record entry =
  target :: nat
  isIntersecting :: bool

definition on_entry :: "entry \<Rightarrow> lazy_state \<Rightarrow> lazy_state" where
  "on_entry e s =
     (if isIntersecting e
      then s\<lparr>images := (images s)[target e := load_img (images s ! target e)],
             observed := removeAll (target e) (observed s),
             load_log := load_log s @ [target e]\<rparr>
      else s)"

definition imageObserver_callback :: "entry list \<Rightarrow> lazy_state \<Rightarrow> lazy_state" where
  "imageObserver_callback entries s = fold on_entry entries s"

text \<open>
  \<^verbatim>\<open>lazyLoadImages\<close>; \<open>has_io\<close> is \<^verbatim>\<open>'IntersectionObserver' in window\<close>. Without the
  observer every \<^verbatim>\<open>img[data-src]\<close> gets its pending source at once and nothing is
  observed.
\<close>

definition lazyLoadImages :: "bool \<Rightarrow> img list \<Rightarrow> lazy_state" where
  "lazyLoadImages has_io ims =
     (if \<not> has_io
      then \<lparr>images = map (\<lambda>im. case data_src im of None \<Rightarrow> im | Some d \<Rightarrow> im\<lparr>src := d\<rparr>) ims,
            observed = [], load_log = []\<rparr>
      else \<lparr>images = ims,
            observed = filter (\<lambda>i. data_src (ims ! i) \<noteq> None) [0..<length ims],
            load_log = []\<rparr>)"

text \<open>
  The browser's side of the observer: a notification hands the callback a batch of
  entries. The observer reports only targets it still observes when the batch is
  delivered (\<^verbatim>\<open>unobserve\<close> also drops the entries queued for the target), and a batch
  may hold several entries for one target.
\<close>

definition notify :: "entry list \<Rightarrow> lazy_state \<Rightarrow> lazy_state" where
  "notify batch s =
     imageObserver_callback (filter (\<lambda>e. target e \<in> set (observed s)) batch) s"

definition notify_run :: "entry list list \<Rightarrow> lazy_state \<Rightarrow> lazy_state" where
  "notify_run batches s = fold notify batches s"

text \<open>How often the load action has been performed for image \<open>i\<close>.\<close>

definition loads_of :: "nat \<Rightarrow> lazy_state \<Rightarrow> nat" where
  "loads_of i s = count_list (load_log s) i"

section \<open>Notions used to state the properties of the form\<close>

text \<open>The node a path that starts in a list of siblings leads to.\<close>

definition nodeAt_list :: "node list \<Rightarrow> path \<Rightarrow> node option" where
  "nodeAt_list ns p =
     (case p of [] \<Rightarrow> None | i # q \<Rightarrow> if i < length ns then nodeAt (ns ! i) q else None)"

text \<open>
  What \<^verbatim>\<open>showError\<close> does to the parent of the element, seen from the parent: the
  element is its child number \<open>i\<close>.
\<close>

definition show_local :: "nat \<Rightarrow> jsstring \<Rightarrow> node \<Rightarrow> node" where
  "show_local i message parent0 =
     (let parent = updateAt [i] (on_elem mark_invalid) parent0 in
      case querySelector is_error_message parent of
        None \<Rightarrow>
          updateAt [length (children parent)] (setTextContent message)
            (appendChild new_error_span parent)
      | Some q \<Rightarrow> updateAt q (setTextContent message) parent)"

text \<open>
  An error is shown for the element at \<open>p\<close>: the element carries the class
  \<^verbatim>\<open>error\<close> and \<^verbatim>\<open>aria-invalid="true"\<close>, and the first \<^verbatim>\<open>.error-message\<close> element
  inside its parent reads \<open>message\<close>.
\<close>

definition error_shown :: "node \<Rightarrow> path \<Rightarrow> jsstring \<Rightarrow> bool" where
  "error_shown form p message =
     ((case elem_at form p of
         None \<Rightarrow> False
       | Some e \<Rightarrow> has_error e \<and> aria_invalid e = Some (js ''true''))
      \<and> (case nodeAt form (butlast p) of
            None \<Rightarrow> False
          | Some parent \<Rightarrow>
              (case querySelector is_error_message parent of
                 None \<Rightarrow> False
               | Some q \<Rightarrow>
                   (case nodeAt parent q of
                      None \<Rightarrow> False
                    | Some errorEl \<Rightarrow> textContent errorEl = message))))"

text \<open>Every element of the subtree has at most one \<^verbatim>\<open>.error-message\<close> child.\<close>

fun one_error_child :: "node \<Rightarrow> bool" where
  "one_error_child (Text s) = True"
| "one_error_child (Elem e cs) =
     (length (filter is_error_message_node cs) \<le> 1 \<and> (\<forall>c \<in> set cs. one_error_child c))"

text \<open>The number of elements among a node and its descendants that satisfy a predicate.\<close>

definition count_elems :: "(elem \<Rightarrow> bool) \<Rightarrow> node \<Rightarrow> nat" where
  "count_elems P n = length (filter P (elems n))"

text \<open>Every \<^verbatim>\<open>.error-message\<close> element of the subtree holds text only.\<close>

fun is_text :: "node \<Rightarrow> bool" where
  "is_text (Text s) = True"
| "is_text (Elem e cs) = False"

fun text_only_errors :: "node \<Rightarrow> bool" where
  "text_only_errors (Text s) = True"
| "text_only_errors (Elem e cs) =
     ((is_error_message e \<longrightarrow> (\<forall>c \<in> set cs. is_text c))
      \<and> (\<forall>c \<in> set cs. text_only_errors c))"



text \<open>
  The field for which a submission shows an error, following the checks of
  \<^verbatim>\<open>validateForm\<close> in their order; \<open>None\<close> when validation passes or the field it
  fails on is missing.
\<close>

definition failing_field :: "node \<Rightarrow> path option" where
  "failing_field form =
     (case querySelector is_email form of
        None \<Rightarrow> None
      | Some p \<Rightarrow>
          if trim (value_at form p) = [] \<or> \<not> isValidEmail (value_at form p) then Some p
          else (case querySelector is_textarea form of
                  None \<Rightarrow> None
                | Some q \<Rightarrow> if trim (value_at form q) = [] then Some q else None))"

text \<open>Every round of a session shows an error for the field at \<open>p\<close>.\<close>

fun fails_on :: "path \<Rightarrow> (path \<times> jsstring) list list \<Rightarrow> node \<Rightarrow> bool" where
  "fails_on p [] form = True"
| "fails_on p (edits # rounds) form =
     (failing_field (fold user_edit edits form) = Some p
      \<and> (case handleSubmit (fold user_edit edits form) of
            None \<Rightarrow> False
          | Some (form1, ts) \<Rightarrow> fails_on p rounds form1))"

section \<open>A form to run the handler on\<close>

text \<open>
  The markup of a plain contact form: a wrapper with the email input, a wrapper with the
  text area, and a submit button labelled \<^verbatim>\<open>Send\<close>. \<open>plain\<close> is an element without
  classes or attributes.
\<close>

definition plain :: "kind \<Rightarrow> jsstring \<Rightarrow> node list \<Rightarrow> node" where
  "plain k v cs =
     Elem \<lparr>kind = k, classes = [], aria_invalid = None, val = v, default_val = [],
           disabled = False\<rparr> cs"

definition contact_form :: "jsstring \<Rightarrow> jsstring \<Rightarrow> node" where
  "contact_form email message =
     plain Other []
       [plain Other [] [plain EmailInput email []],
        plain Other [] [plain TextArea message []],
        plain SubmitButton [] [Text (js ''Send'')]]"

text \<open>
  The same form after a submission that failed on the email input: the input is marked and
  an error message element follows it in its wrapper.
\<close>

definition contact_form_email_error :: "jsstring \<Rightarrow> jsstring \<Rightarrow> node" where
  "contact_form_email_error email message =
     plain Other []
       [plain Other []
          [Elem \<lparr>kind = EmailInput, classes = [''error''], aria_invalid = Some (js ''true''),
                 val = email, default_val = [], disabled = False\<rparr> [],
           Elem \<lparr>kind = Other, classes = [''error-message''], aria_invalid = None,
                 val = [], default_val = [], disabled = False\<rparr>
             [Text (js ''Email is required'')]],
        plain Other [] [plain TextArea message []],
        plain SubmitButton [] [Text (js ''Send'')]]"



section \<open>Properties of the class list\<close>

lemma class_contains_add [simp]: "class_contains c (class_add d cs) = (c = d \<or> class_contains c cs)"
  by (auto simp: class_contains_def class_add_def)

lemma class_contains_remove [simp]:
  "class_contains c (class_remove d cs) = (c \<noteq> d \<and> class_contains c cs)"
  by (auto simp: class_contains_def class_remove_def)

lemma class_contains_toggle [simp]:
  "class_contains c (class_toggle d b cs) =
     (if b then c = d \<or> class_contains c cs else c \<noteq> d \<and> class_contains c cs)"
  by (simp add: class_toggle_def)

section \<open>The mobile menu\<close>

lemma MobileMenu_init_None:
  "(MobileMenu_init menuToggle nav = None) = (menuToggle = None \<or> nav = None)"
  by (simp add: MobileMenu_init_def split: option.splits)

lemma menu_inv_on_change: "menu_inv (on_change m)"
  by (simp add: menu_inv_def on_change_def)

lemma menu_inv_on_link_click: "menu_inv (on_link_click m)"
  by (simp add: menu_inv_def on_link_click_def)

lemma menu_inv_on_document_click: "menu_inv m \<Longrightarrow> menu_inv (on_document_click n t m)"
  by (simp add: menu_inv_def on_document_click_def)

lemma menu_inv_on_keydown: "menu_inv m \<Longrightarrow> menu_inv (on_keydown k m)"
  by (simp add: menu_inv_def on_keydown_def)

lemma menu_inv_step: "menu_inv m \<Longrightarrow> menu_inv (menu_step e m)"
  by (cases e)
     (simp_all add: menu_inv_on_change menu_inv_on_link_click menu_inv_on_document_click
        menu_inv_on_keydown)

lemma menu_inv_fold: "menu_inv m \<Longrightarrow> menu_inv (fold menu_step es m)"
  by (induction es arbitrary: m) (simp_all add: menu_inv_step)

text \<open>
  C2. If the navigation container carries the active class exactly when the toggle is
  checked, the same holds after any sequence of user toggles, clicks (on navigation links
  or anywhere else) and key presses, and each of the four listeners on its own keeps the
  equivalence.
\<close>

theorem menu_active_iff_checked:
  assumes "menu_inv m"
  shows "menu_inv (menu_run es m)
       \<and> menu_inv (on_change m) \<and> menu_inv (on_link_click m)
       \<and> menu_inv (on_document_click n t m) \<and> menu_inv (on_keydown k m)"
  using assms
  by (simp add: menu_run_def menu_inv_fold menu_inv_on_change menu_inv_on_link_click
        menu_inv_on_document_click menu_inv_on_keydown)

theorem menu_active_iff_checked_witness:
  "menu_inv \<lparr>checked = False, nav_classes = [''nav'']\<rparr>
   \<and> menu_inv (menu_run [UserToggle, Click False False False, UserToggle, KeyDown ''Escape'']
        \<lparr>checked = False, nav_classes = [''nav'']\<rparr>)
   \<and> checked (menu_run [UserToggle] \<lparr>checked = False, nav_classes = [''nav'']\<rparr>)"
proof -
  have h: "menu_inv \<lparr>checked = False, nav_classes = [''nav'']\<rparr>"
    by (simp add: menu_inv_def class_contains_def)
  have "checked (menu_run [UserToggle] \<lparr>checked = False, nav_classes = [''nav'']\<rparr>)"
    by (simp add: menu_run_def on_change_def on_document_click_def)
  with h menu_active_iff_checked [OF h] show ?thesis by blast
qed

lemma menu_closed_close:
  "menu_closed (m\<lparr>checked := False, nav_classes := class_remove ''active'' (nav_classes m)\<rparr>)"
  by (simp add: menu_closed_def)

text \<open>
  C3 (as stated). A click inside the open menu is claimed never to close it. A click on a
  navigation link has its target inside the navigation container, and the link's own
  listener closes the menu. A click on the toggle unchecks it, and the listener of the
  \<^verbatim>\<open>change\<close> event that follows removes the active class.
\<close>

theorem click_inside_open_menu_counterexample:
  "checked \<lparr>checked = True, nav_classes = [''nav'', ''active'']\<rparr>
   \<and> menu_closed (menu_step (Click True True False)
         \<lparr>checked = True, nav_classes = [''nav'', ''active'']\<rparr>)
   \<and> menu_closed (menu_step UserToggle \<lparr>checked = True, nav_classes = [''nav'', ''active'']\<rparr>)"
  by (simp add: menu_closed_def on_link_click_def on_document_click_def on_change_def)

text \<open>
  C3 (amended). While the menu is open: a click whose target is outside both the
  navigation container and the toggle closes it; a click whose target is inside the
  navigation container does not close it and leaves the menu as it was, unless the click
  is on a navigation link, in which case the link's own listener closes the menu; a click
  on the toggle itself unchecks it and so closes the menu. Escape closes the menu when it
  is open and changes nothing when it is closed, and no other key changes anything.
\<close>

theorem menu_click_and_escape:
  "(checked m \<longrightarrow> menu_closed (menu_step (Click l False False) m))
   \<and> (checked m \<longrightarrow> menu_step (Click False True False) m = m)
   \<and> (checked m \<longrightarrow> menu_closed (menu_step (Click True True False) m))
   \<and> (checked m \<longrightarrow> menu_closed (menu_step UserToggle m))
   \<and> (checked m \<longrightarrow> menu_closed (menu_step (KeyDown ''Escape'') m))
   \<and> (\<not> checked m \<longrightarrow> menu_step (KeyDown ''Escape'') m = m)
   \<and> (k \<noteq> ''Escape'' \<longrightarrow> menu_step (KeyDown k) m = m)"
  by (auto simp: on_document_click_def on_link_click_def on_keydown_def on_change_def
        menu_closed_def)

theorem menu_click_and_escape_witness:
  "menu_closed (menu_step (Click False False False)
      \<lparr>checked = True, nav_classes = [''nav'', ''active'']\<rparr>)
   \<and> menu_step (Click False True False) \<lparr>checked = True, nav_classes = [''nav'', ''active'']\<rparr>
       = \<lparr>checked = True, nav_classes = [''nav'', ''active'']\<rparr>
   \<and> menu_closed (menu_step (Click True True False)
        \<lparr>checked = True, nav_classes = [''nav'', ''active'']\<rparr>)
   \<and> menu_closed (menu_step UserToggle \<lparr>checked = True, nav_classes = [''nav'', ''active'']\<rparr>)
   \<and> menu_closed (menu_step (KeyDown ''Escape'')
        \<lparr>checked = True, nav_classes = [''nav'', ''active'']\<rparr>)
   \<and> menu_step (KeyDown ''Escape'') \<lparr>checked = False, nav_classes = [''nav'']\<rparr>
       = \<lparr>checked = False, nav_classes = [''nav'']\<rparr>
   \<and> menu_step (KeyDown ''Enter'') \<lparr>checked = True, nav_classes = [''nav'', ''active'']\<rparr>
       = \<lparr>checked = True, nav_classes = [''nav'', ''active'']\<rparr>"
  using menu_click_and_escape
          [of "\<lparr>checked = True, nav_classes = [''nav'', ''active'']\<rparr>" False "''Enter''"]
        menu_click_and_escape
          [of "\<lparr>checked = False, nav_classes = [''nav'']\<rparr>" False "''Enter''"]
  by simp

section \<open>The scroll-to-top button\<close>

text \<open>
  C4. For every scroll offset and every configured threshold, once the button exists the
  recomputation leaves it carrying the visible class exactly when the offset is greater
  than the threshold; the threshold the script ships with is 300.
\<close>

theorem scroll_button_visible_iff:
  assumes "scrollToTopBtn s \<noteq> None"
  shows "button_visible (updateScrollButton cfg s) = (scrollY s > scrollThreshold cfg)
       \<and> scrollThreshold PortfolioManager_config = 300"
  using assms
  by (auto simp: button_visible_def updateScrollButton_def PortfolioManager_config_def
        split: if_splits)

theorem scroll_button_visible_iff_witness:
  "scrollToTopBtn (ScrollManager_init (ScrollManager_loaded 301)) \<noteq> None
   \<and> button_visible (updateScrollButton PortfolioManager_config
        (ScrollManager_init (ScrollManager_loaded 301)))
   \<and> \<not> button_visible (updateScrollButton PortfolioManager_config
        (ScrollManager_init (ScrollManager_loaded 300)))"
proof -
  have h: "scrollToTopBtn (ScrollManager_init (ScrollManager_loaded y)) \<noteq> None" for y
    by (simp add: ScrollManager_init_def ScrollManager_loaded_def
          createScrollToTopButton_def setupScrollListener_def)
  have y: "scrollY (ScrollManager_init (ScrollManager_loaded y)) = y" for y
    by (simp add: ScrollManager_init_def ScrollManager_loaded_def
          createScrollToTopButton_def setupScrollListener_def)
  show ?thesis
    using h [of 301] scroll_button_visible_iff [OF h [of 301], of PortfolioManager_config]
      scroll_button_visible_iff [OF h [of 300], of PortfolioManager_config]
    by (simp add: y)
qed

lemma scroll_inv_init: "scroll_inv (ScrollManager_init (ScrollManager_loaded y))"
  by (simp add: scroll_inv_def ScrollManager_init_def ScrollManager_loaded_def
        createScrollToTopButton_def setupScrollListener_def)

lemma scroll_inv_on_scroll: "scroll_inv s \<Longrightarrow> scroll_inv (on_scroll s)"
  by (auto simp: scroll_inv_def on_scroll_def)

lemma scroll_inv_frame: "scroll_inv s \<Longrightarrow> scroll_inv (scroll_step cfg Frame s)"
proof -
  assume inv: "scroll_inv s"
  then obtain cl where cl: "scrollToTopBtn s = Some cl"
    by (auto simp: scroll_inv_def)
  from inv have "raf_queue s = 0 \<or> raf_queue s = 1"
    by (auto simp: scroll_inv_def)
  then show ?thesis
    using inv cl by (auto simp: scroll_inv_def updateScrollButton_def)
qed

lemma scroll_inv_step: "scroll_inv s \<Longrightarrow> scroll_inv (scroll_step cfg e s)"
proof (cases e)
  case (Scroll y)
  assume inv: "scroll_inv s"
  then have "scroll_inv (s\<lparr>scrollY := y\<rparr>)"
    by (simp add: scroll_inv_def)
  then show ?thesis
    using Scroll scroll_inv_on_scroll [of "s\<lparr>scrollY := y\<rparr>"] by simp
next
  case Frame
  assume "scroll_inv s"
  then show ?thesis using Frame scroll_inv_frame by simp
qed

lemma scroll_inv_fold: "scroll_inv s \<Longrightarrow> scroll_inv (fold (scroll_step cfg) es s)"
  by (induction es arbitrary: s) (simp_all add: scroll_inv_step)

lemma frame_resets:
  "scroll_inv s \<Longrightarrow> \<not> ticking (scroll_step cfg Frame s) \<and> raf_queue (scroll_step cfg Frame s) = 0"
proof -
  assume inv: "scroll_inv s"
  then obtain cl where cl: "scrollToTopBtn s = Some cl"
    by (auto simp: scroll_inv_def)
  from inv have "raf_queue s = 0 \<or> raf_queue s = 1"
    by (auto simp: scroll_inv_def)
  then show ?thesis
    using inv cl by (auto simp: scroll_inv_def updateScrollButton_def)
qed

text \<open>
  C5. Starting from the module's initialisation, after every sequence of scroll events
  and frames at most one recomputation is queued, and the ticking flag is true exactly
  when one is. In such a state a scroll event that finds the flag set queues nothing, a
  frame runs the queued recomputation, leaving the flag clear and the queue empty, and the
  next scroll event queues exactly one recomputation again.
\<close>

theorem scroll_at_most_one_pending:
  "(let s = scroll_run cfg es (ScrollManager_init (ScrollManager_loaded y0)) in
      raf_queue s \<le> 1
    \<and> ticking s = (raf_queue s = 1)
    \<and> (ticking s \<longrightarrow> raf_queue (scroll_step cfg (Scroll y) s) = raf_queue s)
    \<and> \<not> ticking (scroll_step cfg Frame s)
    \<and> raf_queue (scroll_step cfg Frame s) = 0
    \<and> raf_queue (scroll_step cfg (Scroll y) (scroll_step cfg Frame s)) = 1
    \<and> ticking (scroll_step cfg (Scroll y) (scroll_step cfg Frame s)))"
proof -
  define s where "s = scroll_run cfg es (ScrollManager_init (ScrollManager_loaded y0))"
  have inv: "scroll_inv s"
    unfolding s_def scroll_run_def by (rule scroll_inv_fold [OF scroll_inv_init])
  have lis: "listening s"
  proof -
    have a: "listening t \<Longrightarrow> listening (scroll_step cfg e t)" for e t
    proof (cases e)
      case (Scroll z)
      assume "listening t"
      then show ?thesis using Scroll by (simp add: on_scroll_def)
    next
      case Frame
      assume l: "listening t"
      have "listening ((updateScrollButton cfg ^^ n) u) = listening u" for n u
        by (induction n arbitrary: u) (auto simp: updateScrollButton_def split: option.splits)
      then show ?thesis using Frame l by simp
    qed
    have b: "listening t \<Longrightarrow> listening (fold (scroll_step cfg) xs t)" for xs t
      by (induction xs arbitrary: t) (simp_all add: a)
    show ?thesis
      unfolding s_def scroll_run_def
      by (rule b) (simp add: ScrollManager_init_def setupScrollListener_def)
  qed
  have fr: "\<not> ticking (scroll_step cfg Frame s)" "raf_queue (scroll_step cfg Frame s) = 0"
    using frame_resets [OF inv] by simp_all
  have lis': "listening (scroll_step cfg Frame s)"
  proof -
    have "listening ((updateScrollButton cfg ^^ n) u) = listening u" for n u
      by (induction n arbitrary: u) (auto simp: updateScrollButton_def split: option.splits)
    then show ?thesis using lis by simp
  qed
  have c1: "raf_queue s \<le> 1" and c2: "ticking s = (raf_queue s = 1)"
    using inv by (simp_all add: scroll_inv_def)
  have c3: "ticking s \<longrightarrow> raf_queue (scroll_step cfg (Scroll y) s) = raf_queue s"
    using lis by (simp add: on_scroll_def)
  have c6: "raf_queue (scroll_step cfg (Scroll y) (scroll_step cfg Frame s)) = 1"
    and c7: "ticking (scroll_step cfg (Scroll y) (scroll_step cfg Frame s))"
    using fr lis' by (simp_all add: on_scroll_def del: scroll_step.simps(2))
  show ?thesis
    unfolding s_def [symmetric] Let_def using c1 c2 c3 fr c6 c7 by blast
qed

theorem scroll_at_most_one_pending_witness:
  "(let s = scroll_run PortfolioManager_config [Scroll 10, Scroll 400]
              (ScrollManager_init (ScrollManager_loaded 0)) in
      ticking s \<and> raf_queue s = 1
    \<and> raf_queue (scroll_step PortfolioManager_config (Scroll 500) s) = 1
    \<and> button_visible (scroll_step PortfolioManager_config Frame s))"
proof -
  have e: "scroll_run PortfolioManager_config [Scroll 10, Scroll 400]
              (ScrollManager_init (ScrollManager_loaded 0))
           = \<lparr>scrollToTopBtn = Some [''scroll-to-top''], ticking = True, raf_queue = 1,
              listening = True, scrollY = 400\<rparr>"
    by (simp add: scroll_run_def ScrollManager_init_def ScrollManager_loaded_def
          createScrollToTopButton_def setupScrollListener_def on_scroll_def)
  have v: "button_visible (scroll_step PortfolioManager_config Frame
             \<lparr>scrollToTopBtn = Some [''scroll-to-top''], ticking = True, raf_queue = 1,
              listening = True, scrollY = 400\<rparr>)"
    by (simp add: updateScrollButton_def button_visible_def PortfolioManager_config_def)
  show ?thesis
    using scroll_at_most_one_pending [of PortfolioManager_config "[Scroll 10, Scroll 400]" 0 500] v
    unfolding e Let_def by simp
qed

section \<open>Lazy images\<close>

lemma loads_of_on_entry:
  "loads_of i (on_entry e s) = loads_of i s + (if target e = i \<and> isIntersecting e then 1 else 0)"
  by (simp add: loads_of_def on_entry_def)

lemma observed_on_entry:
  "set (observed (on_entry e s)) = set (observed s) - (if isIntersecting e then {target e} else {})"
  by (auto simp: on_entry_def)

lemma loads_of_callback:
  "loads_of i (imageObserver_callback es s)
   = loads_of i s + length (filter (\<lambda>e. target e = i \<and> isIntersecting e) es)"
  unfolding imageObserver_callback_def
  by (induction es arbitrary: s) (simp_all add: loads_of_on_entry)

lemma observed_callback:
  "set (observed (imageObserver_callback es s))
   = set (observed s) - target ` {e \<in> set es. isIntersecting e}"
  unfolding imageObserver_callback_def
  by (induction es arbitrary: s) (auto simp: observed_on_entry)

lemma loads_of_notify:
  "loads_of i (notify b s)
   = loads_of i s
     + (if i \<in> set (observed s) then length (filter (\<lambda>e. target e = i \<and> isIntersecting e) b)
        else 0)"
proof -
  have "filter (\<lambda>e. target e = i \<and> isIntersecting e) (filter (\<lambda>e. target e \<in> set (observed s)) b)
        = (if i \<in> set (observed s) then filter (\<lambda>e. target e = i \<and> isIntersecting e) b else [])"
    by (induction b) auto
  then show ?thesis
    by (simp add: notify_def loads_of_callback)
qed

lemma observed_notify_subset: "set (observed (notify b s)) \<subseteq> set (observed s)"
  by (auto simp: notify_def observed_callback)

lemma loaded_then_unobserved:
  assumes "loads_of i s < loads_of i (notify b s)"
  shows "i \<notin> set (observed (notify b s))"
proof -
  from assms have obs: "i \<in> set (observed s)"
    and ne: "filter (\<lambda>e. target e = i \<and> isIntersecting e) b \<noteq> []"
    by (auto simp: loads_of_notify split: if_splits)
  from ne obtain e where "e \<in> set b" "target e = i" "isIntersecting e"
    by (auto simp: filter_empty_conv)
  with obs have "i \<in> target ` {e \<in> set (filter (\<lambda>e. target e \<in> set (observed s)) b). isIntersecting e}"
    by auto
  then show ?thesis
    by (simp add: notify_def observed_callback)
qed

lemma unobserved_stays:
  "i \<notin> set (observed s) \<Longrightarrow>
     i \<notin> set (observed (notify_run bs s)) \<and> loads_of i (notify_run bs s) = loads_of i s"
  unfolding notify_run_def
proof (induction bs arbitrary: s)
  case Nil
  then show ?case by simp
next
  case (Cons b bs)
  from Cons.prems have a: "i \<notin> set (observed (notify b s))"
    using observed_notify_subset [of b s] by auto
  from Cons.prems have c: "loads_of i (notify b s) = loads_of i s"
    by (simp add: loads_of_notify)
  from Cons.IH [OF a] c show ?case by simp
qed

lemma load_img_idem: "load_img (load_img im) = load_img im"
  by (cases "data_src im")
     (auto simp: load_img_def pending_or_src_def class_add_def)

text \<open>
  C8 (as stated). The load action is claimed to run at most once for an image. One
  notification holding two intersecting entries for the same observed image runs it
  twice: the entries were collected before the first \<^verbatim>\<open>unobserve\<close>. So does a
  notification for an image that entered the viewport, left it and entered it again
  before the entries were delivered.
\<close>

theorem load_twice_in_one_batch_counterexample:
  "loads_of 0
     (notify [\<lparr>target = 0, isIntersecting = True\<rparr>, \<lparr>target = 0, isIntersecting = True\<rparr>]
        (lazyLoadImages True [\<lparr>src = [], data_src = Some [97], img_classes = []\<rparr>])) = 2
   \<and> loads_of 0
     (notify [\<lparr>target = 0, isIntersecting = True\<rparr>, \<lparr>target = 0, isIntersecting = False\<rparr>,
              \<lparr>target = 0, isIntersecting = True\<rparr>]
        (lazyLoadImages True [\<lparr>src = [], data_src = Some [97], img_classes = []\<rparr>])) = 2"
  by (simp add: loads_of_def notify_def imageObserver_callback_def on_entry_def
        lazyLoadImages_def)

text \<open>
  C8 (amended). For every image the load action runs in at most one notification: in a
  notification it runs once for each intersecting entry of an observed image and not at
  all for an image that is not observed; a notification that runs it leaves the image
  unobserved; and for an unobserved image no later sequence of notifications runs it
  again or observes the image again. Running the action again leaves the image as the
  first run left it.
\<close>

theorem load_in_at_most_one_notification:
  "loads_of i (notify b s)
     = loads_of i s
       + (if i \<in> set (observed s)
          then length (filter (\<lambda>e. target e = i \<and> isIntersecting e) b) else 0)
   \<and> (loads_of i s < loads_of i (notify b s) \<longrightarrow>
        i \<notin> set (observed (notify b s))
        \<and> loads_of i (notify_run bs (notify b s)) = loads_of i (notify b s)
        \<and> i \<notin> set (observed (notify_run bs (notify b s))))
   \<and> load_img (load_img im) = load_img im"
  using loads_of_notify [of i b s] loaded_then_unobserved [of i s b]
    unobserved_stays [of i "notify b s" bs] load_img_idem [of im]
  by blast

theorem load_in_at_most_one_notification_witness:
  "(let s = lazyLoadImages True [\<lparr>src = [], data_src = Some [97], img_classes = []\<rparr>];
        b = [\<lparr>target = 0, isIntersecting = True\<rparr>];
        bs = [[\<lparr>target = 0, isIntersecting = True\<rparr>], [\<lparr>target = 0, isIntersecting = True\<rparr>]]
    in loads_of 0 s = 0 \<and> loads_of 0 (notify b s) = 1
       \<and> loads_of 0 (notify_run bs (notify b s)) = 1
       \<and> 0 \<notin> set (observed (notify_run bs (notify b s))))"
proof -
  define s where "s = lazyLoadImages True [\<lparr>src = [], data_src = Some [97], img_classes = []\<rparr>]"
  define b where "b = [\<lparr>target = 0, isIntersecting = True\<rparr>]"
  have s0: "loads_of 0 s = 0" and o0: "0 \<in> set (observed s)"
    by (simp_all add: s_def lazyLoadImages_def loads_of_def)
  have s1: "loads_of 0 (notify b s) = 1"
    using load_in_at_most_one_notification [of 0 b s] o0 s0 by (simp add: b_def)
  show ?thesis
    unfolding Let_def s_def [symmetric] b_def [symmetric]
    using load_in_at_most_one_notification [of 0 b s "[b, b]"] s0 s1 by simp
qed

section \<open>Paths, lookups and updates in the form\<close>

lemma nodeAt_append:
  "nodeAt n (p @ q) = (case nodeAt n p of None \<Rightarrow> None | Some m \<Rightarrow> nodeAt m q)"
  by (induction p arbitrary: n) auto

lemma nodeAt_updateAt_same:
  "nodeAt n p = Some m \<Longrightarrow> nodeAt (updateAt p f n) p = Some (f m)"
proof (induction p arbitrary: n)
  case Nil
  then show ?case by simp
next
  case (Cons i p)
  then show ?case by (cases n) (auto split: if_splits)
qed

lemma updateAt_append:
  "updateAt (p @ q) f n = updateAt p (updateAt q f) n"
proof (induction p arbitrary: n)
  case Nil
  then show ?case by simp
next
  case (Cons i p)
  then show ?case by (cases n) auto
qed

lemma updateAt_comp: "updateAt p f (updateAt p g n) = updateAt p (\<lambda>m. f (g m)) n"
proof (induction p arbitrary: n)
  case Nil
  then show ?case by simp
next
  case (Cons i p)
  then show ?case by (cases n) auto
qed

lemma nodeAt_butlast:
  assumes "nodeAt n p = Some m" "p \<noteq> []"
  shows "\<exists>parent. nodeAt n (butlast p) = Some parent \<and> last p < length (children parent)
           \<and> children parent ! last p = m"
proof -
  from assms(2) have p: "p = butlast p @ [last p]" by simp
  from assms(1) have "nodeAt n (butlast p @ [last p]) = Some m" using p by simp
  then show ?thesis
    by (auto simp: nodeAt_append split: option.splits if_splits)
qed


lemma nodeAt_list_bump: "nodeAt_list (n # ns) (bump p) = nodeAt_list ns p"
  by (cases p) (auto simp: nodeAt_list_def)

lemma qs_nodes_Some:
  "qs_nodes P ns = Some p \<Longrightarrow> \<exists>e cs. nodeAt_list ns p = Some (Elem e cs) \<and> P e"
proof (induction P ns arbitrary: p rule: qs_nodes.induct)
  case (1 P)
  then show ?case by simp
next
  case (2 P s ns)
  then show ?case by (auto simp: nodeAt_list_bump)
next
  case (3 P e cs ns)
  show ?case
  proof (cases "P e")
    case True
    with 3 show ?thesis by (auto simp: nodeAt_list_def)
  next
    case False
    show ?thesis
    proof (cases "qs_nodes P cs")
      case None
      with False 3 show ?thesis by (auto simp: nodeAt_list_bump)
    next
      case (Some q)
      with False 3(1)[OF False Some] 3(3) show ?thesis
        by (auto simp: nodeAt_list_def split: list.splits if_splits)
    qed
  qed
qed

lemma qs_nodes_None: "(qs_nodes P ns = None) = (\<forall>e \<in> set (concat (map elems ns)). \<not> P e)"
proof (induction P ns rule: qs_nodes.induct)
  case (1 P)
  then show ?case by simp
next
  case (2 P s ns)
  then show ?case by simp
next
  case (3 P e cs ns)
  show ?case
  proof (cases "P e")
    case True
    then show ?thesis by simp
  next
    case False
    note ih1 = 3(1) [OF False]
    show ?thesis
    proof (cases "qs_nodes P cs")
      case None
      with False ih1 3(2) [OF False None] show ?thesis by auto
    next
      case (Some q)
      with False ih1 show ?thesis by auto
    qed
  qed
qed

lemma querySelector_Some:
  assumes "querySelector P n = Some p"
  shows "p \<noteq> [] \<and> (\<exists>e cs. nodeAt n p = Some (Elem e cs) \<and> P e)"
proof -
  from assms obtain e cs where "nodeAt_list (children n) p = Some (Elem e cs)" "P e"
    using qs_nodes_Some unfolding querySelector_def by blast
  then show ?thesis
    by (cases p) (auto simp: nodeAt_list_def split: if_splits)
qed

lemma querySelector_None: "(querySelector P n = None) = (\<forall>e \<in> set (descendants n). \<not> P e)"
  by (simp add: querySelector_def descendants_def qs_nodes_None)

lemma updateAt_cong_at:
  "nodeAt n p = Some m \<Longrightarrow> f m = g m \<Longrightarrow> updateAt p f n = updateAt p g n"
proof (induction p arbitrary: n)
  case Nil
  then show ?case by simp
next
  case (Cons i p)
  then show ?case by (cases n) (auto split: if_splits)
qed

lemma showError_local:
  assumes "p \<noteq> []" "nodeAt form (butlast p) = Some parent0"
  shows "showError form (Some p) message
         = Some (updateAt (butlast p) (show_local (last p) message) form)"
proof -
  define pp where "pp = butlast p"
  define i where "i = last p"
  have p: "p = pp @ [i]" using assms(1) by (simp add: pp_def i_def)
  define mk where "mk = updateAt [i] (on_elem mark_invalid)"
  define form1 where "form1 = updateAt p (on_elem mark_invalid) form"
  have f1: "form1 = updateAt pp mk form"
    by (simp add: form1_def p updateAt_append mk_def)
  have par: "nodeAt form1 pp = Some (mk parent0)"
    using assms(2) by (simp add: f1 nodeAt_updateAt_same pp_def)
  have pe: "parentElement p = Some pp"
    using assms(1) by (simp add: parentElement_def pp_def)
  have sl: "show_local i message parent0
            = (case querySelector is_error_message (mk parent0) of
                 None \<Rightarrow> updateAt [length (children (mk parent0))] (setTextContent message)
                           (appendChild new_error_span (mk parent0))
               | Some q \<Rightarrow> updateAt q (setTextContent message) (mk parent0))"
    unfolding show_local_def mk_def Let_def by (rule refl)
  show ?thesis
  proof (cases "querySelector is_error_message (mk parent0)")
    case None
    define k where "k = length (children (mk parent0))"
    have a: "updateAt pp (appendChild new_error_span) form1
             = updateAt pp (\<lambda>m. appendChild new_error_span (mk m)) form"
      by (simp add: f1 updateAt_comp)
    have b: "updateAt (pp @ [k]) (setTextContent message)
               (updateAt pp (\<lambda>m. appendChild new_error_span (mk m)) form)
             = updateAt pp (\<lambda>m. updateAt [k] (setTextContent message)
                                   (appendChild new_error_span (mk m))) form"
      by (simp add: updateAt_append updateAt_comp)
    have c: "updateAt pp (\<lambda>m. updateAt [k] (setTextContent message)
                                   (appendChild new_error_span (mk m))) form
             = updateAt pp (show_local i message) form"
      using assms(2) None
      by (intro updateAt_cong_at [where m = parent0]) (simp_all add: pp_def sl k_def)
    show ?thesis
      using None par pe a b c
      by (simp add: showError_def form1_def [symmetric] k_def pp_def [symmetric] i_def [symmetric])
  next
    case (Some q)
    have "updateAt (pp @ q) (setTextContent message) form1
          = updateAt pp (\<lambda>m. updateAt q (setTextContent message) (mk m)) form"
      by (simp add: f1 updateAt_append updateAt_comp)
    also have "\<dots> = updateAt pp (show_local i message) form"
      using assms(2) Some
      by (intro updateAt_cong_at [where m = parent0]) (simp_all add: pp_def sl)
    finally show ?thesis
      using Some par pe
      by (simp add: showError_def form1_def [symmetric] pp_def [symmetric] i_def [symmetric])
  qed
qed

section \<open>What showError leaves behind\<close>

lemma elem_of_updateAt:
  assumes "\<And>m. elem_of (f m) = elem_of m"
  shows "elem_of (updateAt r f n) = elem_of n"
proof (cases r)
  case Nil
  then show ?thesis using assms by simp
next
  case (Cons j r')
  then show ?thesis by (cases n) auto
qed

lemma elem_of_Some: "elem_of n = Some e \<Longrightarrow> \<exists>cs. n = Elem e cs"
  by (cases n) auto

lemma elem_of_setTextContent [simp]: "elem_of (setTextContent s n) = elem_of n"
  by (cases n) auto

lemma textContent_setTextContent [simp]: "textContent (setTextContent s n) = s"
  by (cases n) auto

lemma qs_nodes_nonempty: "qs_nodes P ns = Some q \<Longrightarrow> \<exists>j r. q = j # r \<and> j < length ns"
  using qs_nodes_Some [of P ns q]
  by (cases q) (auto simp: nodeAt_list_def split: if_splits)

lemma children_updateAt_Cons:
  "children (updateAt (j # r) f (Elem e ns))
   = (if j < length ns then ns[j := updateAt r f (ns ! j)] else ns)"
  by simp

lemma qs_nodes_stable:
  assumes "\<And>m. elem_of (f m) = elem_of m"
  shows "qs_nodes P ns = Some q \<Longrightarrow> qs_nodes P (children (updateAt q f (Elem e ns))) = Some q"
proof (induction P ns arbitrary: q rule: qs_nodes.induct)
  case (1 P)
  then show ?case by simp
next
  case (2 P s ns)
  from 2(2) obtain q' where q': "qs_nodes P ns = Some q'" "q = bump q'" by auto
  from qs_nodes_nonempty [OF q'(1)] obtain j r where jr: "q' = j # r" "j < length ns" by blast
  from 2(1) [OF q'(1)] have "qs_nodes P (ns[j := updateAt r f (ns ! j)]) = Some q'"
    using jr by simp
  then show ?case using q' jr by simp
next
  case (3 P e' cs' ns)
  show ?case
  proof (cases "P e'")
    case True
    with 3(3) have q: "q = [0]" by simp
    obtain cs'' where "f (Elem e' cs') = Elem e' cs''"
      using elem_of_Some [of "f (Elem e' cs')" e'] assms by auto
    then show ?thesis using q True by simp
  next
    case False
    show ?thesis
    proof (cases "qs_nodes P cs'")
      case (Some q')
      with False 3(3) have q: "q = 0 # q'" by simp
      from qs_nodes_nonempty [OF Some] obtain j r where jr: "q' = j # r" "j < length cs'" by blast
      from 3(1) [OF False Some] have "qs_nodes P (cs'[j := updateAt r f (cs' ! j)]) = Some q'"
        using jr by simp
      then show ?thesis using q jr False by simp
    next
      case None
      with False 3(3) obtain q' where q': "qs_nodes P ns = Some q'" "q = bump q'" by auto
      from qs_nodes_nonempty [OF q'(1)] obtain j r where jr: "q' = j # r" "j < length ns" by blast
      from 3(2) [OF False None q'(1)] have "qs_nodes P (ns[j := updateAt r f (ns ! j)]) = Some q'"
        using jr by simp
      then show ?thesis using q' jr False None by simp
    qed
  qed
qed

lemma qs_nodes_append_new:
  "qs_nodes P ns = None \<Longrightarrow> P e' \<Longrightarrow> qs_nodes P (ns @ [Elem e' cs']) = Some [length ns]"
proof (induction P ns rule: qs_nodes.induct)
  case (1 P)
  then show ?case by simp
next
  case (2 P s ns)
  then show ?case by simp
next
  case (3 P e cs ns)
  then show ?case by (auto split: if_splits option.splits)
qed

lemma is_error_message_mark [simp]: "is_error_message (mark_invalid e) = is_error_message e"
  by (simp add: is_error_message_def mark_invalid_def)

lemma has_error_mark [simp]: "has_error (mark_invalid e)"
  by (simp add: has_error_def mark_invalid_def)

lemma aria_mark [simp]: "aria_invalid (mark_invalid e) = Some (js ''true'')"
  by (simp add: mark_invalid_def)

lemma show_local_alt:
  assumes "updateAt [i] (on_elem mark_invalid) parent0 = parent"
  shows "show_local i message parent0
         = (case querySelector is_error_message parent of
              None \<Rightarrow> updateAt [length (children parent)] (setTextContent message)
                        (appendChild new_error_span parent)
            | Some q \<Rightarrow> updateAt q (setTextContent message) parent)"
  unfolding show_local_def Let_def assms by (rule refl)

lemma show_local_post:
  assumes "i < length cs" "cs ! i = Elem ei ci"
  shows "\<exists>cs'. show_local i message (Elem e cs) = Elem e cs' \<and> i < length cs'
           \<and> elem_of (cs' ! i) = Some (mark_invalid ei)
           \<and> (\<exists>q m. qs_nodes is_error_message cs' = Some q
                  \<and> nodeAt (Elem e cs') q = Some m \<and> textContent m = message)"
proof -
  define cs1 where "cs1 = cs[i := Elem (mark_invalid ei) ci]"
  have mk: "updateAt [i] (on_elem mark_invalid) (Elem e cs) = Elem e cs1"
    using assms by (simp add: cs1_def)
  have l1: "length cs1 = length cs" and c1: "cs1 ! i = Elem (mark_invalid ei) ci"
    using assms by (simp_all add: cs1_def)
  show ?thesis
  proof (cases "qs_nodes is_error_message cs1")
    case None
    define x where "x = setTextContent message new_error_span"
    have x: "x = Elem \<lparr>kind = Other, classes = [''error-message''], aria_invalid = None,
                       val = [], default_val = [], disabled = False\<rparr>
                   (if message = [] then [] else [Text message])"
      by (simp add: x_def new_error_span_def)
    have r: "show_local i message (Elem e cs) = Elem e (cs1 @ [x])"
      using None by (simp add: show_local_alt [OF mk] querySelector_def x_def)
    have q: "qs_nodes is_error_message (cs1 @ [x]) = Some [length cs1]"
      unfolding x by (rule qs_nodes_append_new [OF None])
                     (simp add: is_error_message_def class_contains_def)
    have t: "textContent x = message" by (simp add: x_def)
    show ?thesis
      using r q t l1 c1 assms(1) by (auto simp: nth_append)
  next
    case (Some q)
    from qs_nodes_nonempty [OF Some] obtain j r where jr: "q = j # r" "j < length cs1" by blast
    define cs' where "cs' = cs1[j := updateAt r (setTextContent message) (cs1 ! j)]"
    have r: "show_local i message (Elem e cs) = Elem e cs'"
      using Some jr by (simp add: show_local_alt [OF mk] querySelector_def cs'_def)
    have st: "qs_nodes is_error_message cs' = Some q"
      using qs_nodes_stable [of "setTextContent message" is_error_message cs1 q e, OF _ Some] jr
      by (simp add: cs'_def)
    from qs_nodes_Some [OF Some] obtain m where m: "nodeAt (Elem e cs1) q = Some m"
      using jr by (auto simp: nodeAt_list_def)
    have n: "nodeAt (Elem e cs') q = Some (setTextContent message m)"
      using nodeAt_updateAt_same [OF m, of "setTextContent message"] jr by (simp add: cs'_def)
    have el: "elem_of (cs' ! i) = Some (mark_invalid ei)"
    proof (cases "i = j")
      case True
      then show ?thesis
        using jr c1 l1 assms(1) elem_of_updateAt [of "setTextContent message" r "cs1 ! j"]
        by (simp add: cs'_def)
    next
      case False
      then show ?thesis using c1 by (simp add: cs'_def)
    qed
    show ?thesis
      using r st n el l1 assms(1) by (auto simp: cs'_def)
  qed
qed

lemma showError_shown:
  assumes "querySelector P form = Some p"
  shows "\<exists>form'. showError form (Some p) message = Some form' \<and> error_shown form' p message"
proof -
  from querySelector_Some [OF assms] obtain ei ci where
    ne: "p \<noteq> []" and at: "nodeAt form p = Some (Elem ei ci)" by blast
  from nodeAt_butlast [OF at ne] obtain parent0 where
    par: "nodeAt form (butlast p) = Some parent0" and
    i: "last p < length (children parent0)" and ch: "children parent0 ! last p = Elem ei ci"
    by blast
  obtain e cs where p0: "parent0 = Elem e cs" using i by (cases parent0) auto
  from show_local_post [of "last p" cs ei ci message e] i ch p0
  obtain cs' q m where
    sl: "show_local (last p) message (Elem e cs) = Elem e cs'" and
    i': "last p < length cs'" and el: "elem_of (cs' ! last p) = Some (mark_invalid ei)" and
    q: "qs_nodes is_error_message cs' = Some q" and
    m: "nodeAt (Elem e cs') q = Some m" "textContent m = message"
    by auto
  define form' where "form' = updateAt (butlast p) (show_local (last p) message) form"
  have s: "showError form (Some p) message = Some form'"
    unfolding form'_def by (rule showError_local [OF ne par])
  have np: "nodeAt form' (butlast p) = Some (Elem e cs')"
    using nodeAt_updateAt_same [OF par] sl p0 by (simp add: form'_def)
  have "nodeAt form' (butlast p @ [last p]) = Some (cs' ! last p)"
    using np i' by (simp add: nodeAt_append)
  then have ea: "elem_at form' p = Some (mark_invalid ei)"
    using ne el by (simp add: elem_at_def)
  have "error_shown form' p message"
    using ea np q m by (simp add: error_shown_def querySelector_def)
  with s show ?thesis by blast
qed

section \<open>The email pattern and blank values\<close>

lemma rx_match_plus:
  "rx_match (OneOrMore P # r) s
   = (\<exists>a b. s = a @ b \<and> a \<noteq> [] \<and> (\<forall>c \<in> set a. P c) \<and> rx_match r b)"
proof (induction s)
  case Nil
  then show ?case by simp
next
  case (Cons x xs)
  show ?case
  proof
    assume "rx_match (OneOrMore P # r) (x # xs)"
    then have px: "P x" and d: "rx_match (OneOrMore P # r) xs \<or> rx_match r xs" by simp_all
    from d show "\<exists>a b. x # xs = a @ b \<and> a \<noteq> [] \<and> (\<forall>c \<in> set a. P c) \<and> rx_match r b"
    proof
      assume "rx_match (OneOrMore P # r) xs"
      with Cons obtain a b where "xs = a @ b" "\<forall>c \<in> set a. P c" "rx_match r b" by blast
      with px have "x # xs = (x # a) @ b \<and> x # a \<noteq> [] \<and> (\<forall>c \<in> set (x # a). P c) \<and> rx_match r b"
        by simp
      then show ?thesis by blast
    next
      assume "rx_match r xs"
      with px have "x # xs = [x] @ xs \<and> [x] \<noteq> [] \<and> (\<forall>c \<in> set [x]. P c) \<and> rx_match r xs"
        by simp
      then show ?thesis by blast
    qed
  next
    assume "\<exists>a b. x # xs = a @ b \<and> a \<noteq> [] \<and> (\<forall>c \<in> set a. P c) \<and> rx_match r b"
    then obtain a b where ab: "x # xs = a @ b" "a \<noteq> []" "\<forall>c \<in> set a. P c" "rx_match r b"
      by blast
    then obtain a' where a: "a = x # a'" "xs = a' @ b" by (cases a) auto
    show "rx_match (OneOrMore P # r) (x # xs)"
    proof (cases "a' = []")
      case True
      with a ab show ?thesis by simp
    next
      case False
      with a ab have "\<exists>a b. xs = a @ b \<and> a \<noteq> [] \<and> (\<forall>c \<in> set a. P c) \<and> rx_match r b"
        by auto
      with Cons a ab show ?thesis by simp
    qed
  qed
qed

lemma rx_match_lit: "rx_match (Lit c # r) s = (\<exists>b. s = c # b \<and> rx_match r b)"
  by (cases s) auto

lemma isValidEmail_iff:
  "isValidEmail s
   = (\<exists>l d t. s = l @ [0x40] @ d @ [0x2E] @ t \<and> l \<noteq> [] \<and> d \<noteq> [] \<and> t \<noteq> []
        \<and> (\<forall>c \<in> set (l @ d @ t). not_space_at c))"
proof -
  have last: "rx_match [OneOrMore P] b = (b \<noteq> [] \<and> (\<forall>c \<in> set b. P c))" for P b
    by (auto simp: rx_match_plus)
  show ?thesis
    unfolding isValidEmail_def rx_match_plus [of _ "_ # _"] rx_match_lit last
    by (simp add: ball_Un) blast
qed

lemma trim_blank: "(trim s = []) = (\<forall>c \<in> set s. is_space c)"
proof
  assume "trim s = []"
  then have all: "\<forall>c \<in> set (dropWhile is_space s). is_space c"
    by (simp add: trim_def dropWhile_eq_Nil_conv)
  have "dropWhile is_space s = []"
  proof (cases "dropWhile is_space s")
    case Nil
    then show ?thesis .
  next
    case (Cons x xs)
    then have "\<not> is_space x" using hd_dropWhile [of is_space s] by auto
    with Cons all show ?thesis by auto
  qed
  then show "\<forall>c \<in> set s. is_space c" by (simp add: dropWhile_eq_Nil_conv)
next
  assume "\<forall>c \<in> set s. is_space c"
  then have d: "dropWhile is_space s = []" by (induction s) auto
  show "trim s = []" unfolding trim_def d by simp
qed

section \<open>The handler returns\<close>

lemma validateForm_returns: "\<exists>ok form'. validateForm form = Some (ok, form')"
proof -
  have sh: "\<exists>form'. showError form (querySelector P form) m = Some form'" for P m
  proof (cases "querySelector P form")
    case None
    then show ?thesis by (simp add: showError_def)
  next
    case (Some p)
    then show ?thesis using showError_shown [of P form p m] by auto
  qed
  from sh [of is_email] obtain f1 where
    f1: "showError form (querySelector is_email form) (js ''Email is required'') = Some f1"
    by blast
  from sh [of is_email] obtain f2 where
    f2: "showError form (querySelector is_email form) (js ''Please enter a valid email'') = Some f2"
    by blast
  from sh [of is_textarea] obtain f3 where
    f3: "showError form (querySelector is_textarea form) (js ''Message is required'') = Some f3"
    by blast
  show ?thesis
    using f1 f2 f3 by (auto simp: validateForm_def Let_def)
qed

lemma handleSubmit_returns: "\<exists>form' ts. handleSubmit form = Some (form', ts)"
proof -
  from validateForm_returns [of form] obtain ok form1 where
    "validateForm form = Some (ok, form1)" by blast
  then show ?thesis
    by (auto simp: handleSubmit_def Let_def split: option.splits)
qed

lemma session_returns: "\<exists>form'. session rounds form = Some form'"
proof (induction rounds arbitrary: form)
  case Nil
  then show ?case by simp
next
  case (Cons edits rounds)
  from handleSubmit_returns [of "fold user_edit edits form"] obtain form1 ts where
    "handleSubmit (fold user_edit edits form) = Some (form1, ts)" by blast
  with Cons [of form1] show ?case by simp
qed

section \<open>Validation order\<close>

lemmas form_eval =
  validateForm_def handleSubmit_def showError_def clearErrors_def querySelector_def
  querySelectorAll_def descendants_def parentElement_def value_at_def elem_at_def
  is_email_def is_textarea_def is_submit_def has_error_def is_error_message_def
  class_contains_def class_add_def class_remove_def mark_invalid_def unmark_def
  new_error_span_def contact_form_def plain_def js_def trim_def
  isValidEmail_def not_space_at_def is_space_def message_sent_def Let_def

text \<open>
  C1 (as stated). When the form has no email input the claim has the error ``Email is
  required'' shown. \<^verbatim>\<open>showError\<close> returns at once on \<^verbatim>\<open>null\<close>: validation fails and
  the form is left as it was, with no error message element and no error class in it.
\<close>

theorem email_missing_counterexample:
  "validateForm (plain Other [] [plain TextArea (js ''hello'') []])
     = Some (False, plain Other [] [plain TextArea (js ''hello'') []])
   \<and> querySelectorAll is_error_message (plain Other [] [plain TextArea (js ''hello'') []]) = []
   \<and> querySelectorAll has_error (plain Other [] [plain TextArea (js ''hello'') []]) = []"
  by (simp add: form_eval)

text \<open>
  C1 (amended). Validation checks the first email input and then the first text area and
  stops at the first failure. With no email input it fails and shows nothing. With an
  email input whose value is blank (only white space) it shows ``Email is required'' on
  that input; with a value that is not blank and does not match the pattern (a non-empty
  local part, an at sign, a non-empty domain part, a dot and a non-empty last part, none
  of the three parts holding white space or an at sign) it shows ``Please enter a valid
  email''. Only when the email passes is the text area looked at: with no text area
  validation fails and shows nothing, with a blank one it shows ``Message is required''
  on the text area, and otherwise validation succeeds and the errors are cleared. The
  value a@b.co passes; the empty value is blank; abc, a@b and a @b.co are not blank and do
  not match.
\<close>

theorem validateForm_order:
  "(querySelector is_email form = None \<longrightarrow> validateForm form = Some (False, form))
   \<and> (\<forall>p. querySelector is_email form = Some p \<and> trim (value_at form p) = [] \<longrightarrow>
          validateForm form
            = map_option (Pair False) (showError form (Some p) (js ''Email is required''))
          \<and> (\<exists>form'. validateForm form = Some (False, form')
                \<and> error_shown form' p (js ''Email is required'')))
   \<and> (\<forall>p. querySelector is_email form = Some p \<and> trim (value_at form p) \<noteq> []
            \<and> \<not> isValidEmail (value_at form p) \<longrightarrow>
          validateForm form
            = map_option (Pair False) (showError form (Some p) (js ''Please enter a valid email''))
          \<and> (\<exists>form'. validateForm form = Some (False, form')
                \<and> error_shown form' p (js ''Please enter a valid email'')))
   \<and> (\<forall>p. querySelector is_email form = Some p \<and> trim (value_at form p) \<noteq> []
            \<and> isValidEmail (value_at form p) \<and> querySelector is_textarea form = None \<longrightarrow>
          validateForm form = Some (False, form))
   \<and> (\<forall>p q. querySelector is_email form = Some p \<and> trim (value_at form p) \<noteq> []
            \<and> isValidEmail (value_at form p) \<and> querySelector is_textarea form = Some q
            \<and> trim (value_at form q) = [] \<longrightarrow>
          validateForm form
            = map_option (Pair False) (showError form (Some q) (js ''Message is required''))
          \<and> (\<exists>form'. validateForm form = Some (False, form')
                \<and> error_shown form' q (js ''Message is required'')))
   \<and> (\<forall>p q. querySelector is_email form = Some p \<and> trim (value_at form p) \<noteq> []
            \<and> isValidEmail (value_at form p) \<and> querySelector is_textarea form = Some q
            \<and> trim (value_at form q) \<noteq> [] \<longrightarrow>
          validateForm form = Some (True, clearErrors form))
   \<and> (trim s = []) = (\<forall>c \<in> set s. is_space c)
   \<and> isValidEmail s
       = (\<exists>l d t. s = l @ [0x40] @ d @ [0x2E] @ t \<and> l \<noteq> [] \<and> d \<noteq> [] \<and> t \<noteq> []
            \<and> (\<forall>c \<in> set (l @ d @ t). not_space_at c))
   \<and> trim (js ''a@b.co'') \<noteq> [] \<and> isValidEmail (js ''a@b.co'')
   \<and> trim (js '''') = []
   \<and> trim (js ''abc'') \<noteq> [] \<and> \<not> isValidEmail (js ''abc'')
   \<and> trim (js ''a@b'') \<noteq> [] \<and> \<not> isValidEmail (js ''a@b'')
   \<and> trim (js ''a @b.co'') \<noteq> [] \<and> \<not> isValidEmail (js ''a @b.co'')"
proof -
  have c1: "querySelector is_email form = None \<longrightarrow> validateForm form = Some (False, form)"
    by (simp add: validateForm_def showError_def)
  have sh: "querySelector P form = Some p \<Longrightarrow>
              \<exists>form'. map_option (Pair False) (showError form (Some p) m) = Some (False, form')
                \<and> error_shown form' p m" for P p m
    using showError_shown [of P form p m] by auto
  have c2: "\<forall>p. querySelector is_email form = Some p \<and> trim (value_at form p) = [] \<longrightarrow>
          validateForm form
            = map_option (Pair False) (showError form (Some p) (js ''Email is required''))
          \<and> (\<exists>form'. validateForm form = Some (False, form')
                \<and> error_shown form' p (js ''Email is required''))"
  proof (intro allI impI, elim conjE)
    fix p assume a: "querySelector is_email form = Some p" "trim (value_at form p) = []"
    then have e: "validateForm form
            = map_option (Pair False) (showError form (Some p) (js ''Email is required''))"
      by (simp add: validateForm_def)
    show "validateForm form
            = map_option (Pair False) (showError form (Some p) (js ''Email is required''))
          \<and> (\<exists>form'. validateForm form = Some (False, form')
                \<and> error_shown form' p (js ''Email is required''))"
      using e sh [OF a(1)] by simp
  qed
  have c3: "\<forall>p. querySelector is_email form = Some p \<and> trim (value_at form p) \<noteq> []
            \<and> \<not> isValidEmail (value_at form p) \<longrightarrow>
          validateForm form
            = map_option (Pair False) (showError form (Some p) (js ''Please enter a valid email''))
          \<and> (\<exists>form'. validateForm form = Some (False, form')
                \<and> error_shown form' p (js ''Please enter a valid email''))"
  proof (intro allI impI, elim conjE)
    fix p assume a: "querySelector is_email form = Some p" "trim (value_at form p) \<noteq> []"
      "\<not> isValidEmail (value_at form p)"
    then have e: "validateForm form
            = map_option (Pair False) (showError form (Some p) (js ''Please enter a valid email''))"
      by (simp add: validateForm_def)
    show "validateForm form
            = map_option (Pair False) (showError form (Some p) (js ''Please enter a valid email''))
          \<and> (\<exists>form'. validateForm form = Some (False, form')
                \<and> error_shown form' p (js ''Please enter a valid email''))"
      using e sh [OF a(1)] by simp
  qed
  have c4: "\<forall>p. querySelector is_email form = Some p \<and> trim (value_at form p) \<noteq> []
            \<and> isValidEmail (value_at form p) \<and> querySelector is_textarea form = None \<longrightarrow>
          validateForm form = Some (False, form)"
    by (simp add: validateForm_def showError_def)
  have c5: "\<forall>p q. querySelector is_email form = Some p \<and> trim (value_at form p) \<noteq> []
            \<and> isValidEmail (value_at form p) \<and> querySelector is_textarea form = Some q
            \<and> trim (value_at form q) = [] \<longrightarrow>
          validateForm form
            = map_option (Pair False) (showError form (Some q) (js ''Message is required''))
          \<and> (\<exists>form'. validateForm form = Some (False, form')
                \<and> error_shown form' q (js ''Message is required''))"
  proof (intro allI impI, elim conjE)
    fix p q assume a: "querySelector is_email form = Some p" "trim (value_at form p) \<noteq> []"
      "isValidEmail (value_at form p)" "querySelector is_textarea form = Some q"
      "trim (value_at form q) = []"
    then have e: "validateForm form
            = map_option (Pair False) (showError form (Some q) (js ''Message is required''))"
      by (simp add: validateForm_def)
    show "validateForm form
            = map_option (Pair False) (showError form (Some q) (js ''Message is required''))
          \<and> (\<exists>form'. validateForm form = Some (False, form')
                \<and> error_shown form' q (js ''Message is required''))"
      using e sh [OF a(4)] by simp
  qed
  have c6: "\<forall>p q. querySelector is_email form = Some p \<and> trim (value_at form p) \<noteq> []
            \<and> isValidEmail (value_at form p) \<and> querySelector is_textarea form = Some q
            \<and> trim (value_at form q) \<noteq> [] \<longrightarrow>
          validateForm form = Some (True, clearErrors form)"
    by (simp add: validateForm_def)
  have ex: "trim (js ''a@b.co'') \<noteq> [] \<and> isValidEmail (js ''a@b.co'')
      \<and> trim (js '''') = []
      \<and> trim (js ''abc'') \<noteq> [] \<and> \<not> isValidEmail (js ''abc'')
      \<and> trim (js ''a@b'') \<noteq> [] \<and> \<not> isValidEmail (js ''a@b'')
      \<and> trim (js ''a @b.co'') \<noteq> [] \<and> \<not> isValidEmail (js ''a @b.co'')"
    by (simp add: isValidEmail_def js_def not_space_at_def is_space_def trim_def)
  show ?thesis
    using c1 c2 c3 c4 c5 c6 trim_blank [of s] isValidEmail_iff [of s] ex by blast
qed

theorem validateForm_order_witness:
  "querySelector is_email (contact_form (js '''') (js ''hello'')) = Some [0, 0]
   \<and> (\<exists>form'. validateForm (contact_form (js '''') (js ''hello'')) = Some (False, form')
         \<and> error_shown form' [0, 0] (js ''Email is required''))
   \<and> (\<exists>form'. validateForm (contact_form (js ''a@b'') (js ''hello'')) = Some (False, form')
         \<and> error_shown form' [0, 0] (js ''Please enter a valid email''))
   \<and> (\<exists>form'. validateForm (contact_form (js ''a@b.co'') (js '' '')) = Some (False, form')
         \<and> error_shown form' [1, 0] (js ''Message is required''))
   \<and> validateForm (contact_form (js ''a@b.co'') (js ''hello''))
       = Some (True, contact_form (js ''a@b.co'') (js ''hello''))"
proof -
  have q: "querySelector is_email (contact_form e m) = Some [0, 0]"
          "querySelector is_textarea (contact_form e m) = Some [1, 0]"
          "value_at (contact_form e m) [0, 0] = e"
          "value_at (contact_form e m) [1, 0] = m" for e m
    by (simp_all add: contact_form_def plain_def querySelector_def is_email_def is_textarea_def
          value_at_def elem_at_def)
  have v: "trim (js '''') = []" "trim (js ''a@b'') \<noteq> []" "\<not> isValidEmail (js ''a@b'')"
          "trim (js ''a@b.co'') \<noteq> []" "isValidEmail (js ''a@b.co'')" "trim (js '' '') = []"
          "trim (js ''hello'') \<noteq> []"
    by (simp_all add: isValidEmail_def js_def not_space_at_def is_space_def trim_def)
  have c: "clearErrors (contact_form e m) = contact_form e m" for e m
    by (simp add: clearErrors_def contact_form_def plain_def unmark_def has_error_def
          class_contains_def is_error_message_def)
  have w1: "\<exists>form'. validateForm (contact_form (js '''') (js ''hello'')) = Some (False, form')
         \<and> error_shown form' [0, 0] (js ''Email is required'')"
    using validateForm_order [of "contact_form (js '''') (js ''hello'')" "[]"]
      q(1) [of "js ''''" "js ''hello''"] q(3) [of "js ''''" "js ''hello''"] v(1)
    by metis
  have w2: "\<exists>form'. validateForm (contact_form (js ''a@b'') (js ''hello'')) = Some (False, form')
         \<and> error_shown form' [0, 0] (js ''Please enter a valid email'')"
    using validateForm_order [of "contact_form (js ''a@b'') (js ''hello'')" "[]"]
      q(1) [of "js ''a@b''" "js ''hello''"] q(3) [of "js ''a@b''" "js ''hello''"] v(2,3)
    by metis
  have w3: "\<exists>form'. validateForm (contact_form (js ''a@b.co'') (js '' '')) = Some (False, form')
         \<and> error_shown form' [1, 0] (js ''Message is required'')"
    using validateForm_order [of "contact_form (js ''a@b.co'') (js '' '')" "[]"]
      q [of "js ''a@b.co''" "js '' ''"] v(4,5,6)
    by metis
  have w4: "validateForm (contact_form (js ''a@b.co'') (js ''hello''))
       = Some (True, contact_form (js ''a@b.co'') (js ''hello''))"
    using validateForm_order [of "contact_form (js ''a@b.co'') (js ''hello'')" "[]"]
      q [of "js ''a@b.co''" "js ''hello''"] v(4,5,7) c [of "js ''a@b.co''" "js ''hello''"]
    by metis
  show ?thesis
    using q(1) w1 w2 w3 w4 by blast
qed

section \<open>Clearing errors and resetting\<close>


lemma concat_map_cong:
  "(\<And>x. x \<in> set xs \<Longrightarrow> f x = g x) \<Longrightarrow> concat (map f xs) = concat (map g xs)"
  by (induction xs) auto

lemma elems_unmark_all: "elems (unmark_all n) = map unmark (elems n)"
proof (induction n)
  case (Text s)
  then show ?case by simp
next
  case (Elem e cs)
  have "concat (map (\<lambda>c. elems (unmark_all c)) cs) = concat (map (\<lambda>c. map unmark (elems c)) cs)"
    by (rule concat_map_cong) (rule Elem)
  then show ?case by (simp add: map_concat o_def)
qed

lemma descendants_on_children_unmark:
  "descendants (on_children unmark_all n) = map unmark (descendants n)"
  by (cases n) (simp_all add: descendants_def map_concat elems_unmark_all o_def)

lemma has_error_unmark [simp]: "\<not> has_error (unmark e)"
  by (simp add: unmark_def has_error_def)

lemma is_error_message_unmark [simp]: "is_error_message (unmark e) = is_error_message e"
  by (simp add: unmark_def is_error_message_def)

lemma is_error_message_node_unmark_all [simp]:
  "is_error_message_node (unmark_all n) = is_error_message_node n"
  by (cases n) simp_all

lemma remove_unmark_commute:
  "remove_error_messages (unmark_all n) = unmark_all (remove_error_messages n)"
proof (induction n)
  case (Text s)
  then show ?case by simp
next
  case (Elem e cs)
  have "filter (\<lambda>c. \<not> is_error_message_node c) (map unmark_all cs)
        = map unmark_all (filter (\<lambda>c. \<not> is_error_message_node c) cs)"
    by (simp add: filter_map o_def)
  then show ?case using Elem by simp
qed

lemma clearErrors_alt: "clearErrors form = on_children unmark_all (remove_error_messages form)"
proof (cases form)
  case (Text s)
  then show ?thesis by (simp add: clearErrors_def)
next
  case (Elem e cs)
  have "filter (\<lambda>c. \<not> is_error_message_node c) (map unmark_all cs)
        = map unmark_all (filter (\<lambda>c. \<not> is_error_message_node c) cs)"
    by (simp add: filter_map o_def)
  then show ?thesis using Elem by (simp add: clearErrors_def remove_unmark_commute)
qed

lemma elems_remove_subset: "set (elems (remove_error_messages n)) \<subseteq> set (elems n)"
proof (induction n)
  case (Text s)
  then show ?case by simp
next
  case (Elem e cs)
  then show ?case by auto
qed

lemma descendants_remove_subset:
  "set (descendants (remove_error_messages n)) \<subseteq> set (descendants n)"
proof (cases n)
  case (Text s)
  then show ?thesis by (simp add: descendants_def)
next
  case (Elem e cs)
  then show ?thesis using elems_remove_subset by (auto simp: descendants_def)
qed




lemma clearErrors_aria:
  assumes "\<forall>e \<in> set (descendants form). aria_invalid e \<noteq> None \<longrightarrow> has_error e"
  shows "\<forall>e \<in> set (descendants (clearErrors form)). aria_invalid e = None"
proof
  fix e assume "e \<in> set (descendants (clearErrors form))"
  then obtain e0 where e0: "e0 \<in> set (descendants (remove_error_messages form))" "e = unmark e0"
    by (auto simp: clearErrors_alt descendants_on_children_unmark)
  with descendants_remove_subset [of form] have "e0 \<in> set (descendants form)" by blast
  with assms have "aria_invalid e0 \<noteq> None \<longrightarrow> has_error e0" by blast
  then show "aria_invalid e = None" using e0(2) by (auto simp: unmark_def)
qed

lemma clearErrors_pres:
  assumes "\<forall>e \<in> set (descendants form). Q e" "\<And>e. Q e \<Longrightarrow> Q (unmark e)"
  shows "\<forall>e \<in> set (descendants (clearErrors form)). Q e"
  using assms descendants_remove_subset [of form]
  by (auto simp: clearErrors_alt descendants_on_children_unmark)


lemma elems_updateAt_pres:
  assumes "\<And>m. (\<forall>e \<in> set (elems m). Q e) \<Longrightarrow> (\<forall>e \<in> set (elems (f m)). Q e)"
  shows "(\<forall>e \<in> set (elems n). Q e) \<Longrightarrow> (\<forall>e \<in> set (elems (updateAt p f n)). Q e)"
proof (induction p arbitrary: n)
  case Nil
  then show ?case using assms by simp
next
  case (Cons i p)
  show ?case
  proof (cases n)
    case (Text s)
    then show ?thesis by simp
  next
    case (Elem e cs)
    show ?thesis
    proof (cases "i < length cs")
      case True
      have ci: "\<forall>x \<in> set (elems (cs ! i)). Q x"
        using Cons.prems Elem nth_mem [OF True] by auto
      have "\<forall>c \<in> set (cs[i := updateAt p f (cs ! i)]). \<forall>x \<in> set (elems c). Q x"
      proof
        fix c assume "c \<in> set (cs[i := updateAt p f (cs ! i)])"
        then have "c = updateAt p f (cs ! i) \<or> c \<in> set cs"
          using set_update_subset_insert [of cs i] by auto
        then show "\<forall>x \<in> set (elems c). Q x"
          using Cons.IH [OF ci] Cons.prems Elem by auto
      qed
      then show ?thesis using Cons.prems Elem True by auto
    next
      case False
      then show ?thesis using Cons.prems Elem by simp
    qed
  qed
qed


lemma elems_setTextContent: "set (elems (setTextContent s m)) \<subseteq> set (elems m)"
  by (cases m) auto

lemma elems_on_elem:
  "(\<And>e. Q e \<Longrightarrow> Q (g e)) \<Longrightarrow> (\<forall>e \<in> set (elems m). Q e) \<Longrightarrow> (\<forall>e \<in> set (elems (on_elem g m)). Q e)"
  by (cases m) auto





section \<open>Submission\<close>








lemma is_submit_unmark [simp]: "is_submit (unmark e) = is_submit e"
  by (simp add: unmark_def is_submit_def)








section \<open>At most one error message\<close>


lemma updateAt_invalid: "nodeAt n p = None \<Longrightarrow> updateAt p f n = n"
proof (induction p arbitrary: n)
  case Nil
  then show ?case by simp
next
  case (Cons i p)
  then show ?case by (cases n) (auto split: if_splits simp: list_update_same_conv)
qed

lemma is_em_node_updateAt:
  assumes "nodeAt n p = Some m" "is_error_message_node (f m) = is_error_message_node m"
  shows "is_error_message_node (updateAt p f n) = is_error_message_node n"
proof (cases p)
  case Nil
  then show ?thesis using assms by simp
next
  case (Cons i r)
  then show ?thesis by (cases n) auto
qed

lemma length_filter_update:
  "i < length xs \<Longrightarrow> P x = P (xs ! i) \<Longrightarrow>
     length (filter P (xs[i := x])) = length (filter P xs)"
proof (induction xs arbitrary: i)
  case Nil
  then show ?case by simp
next
  case (Cons a xs)
  then show ?case by (cases i) auto
qed

lemma one_error_child_updateAt:
  assumes "nodeAt n p = Some m" "one_error_child (f m)"
    "is_error_message_node (f m) = is_error_message_node m"
  shows "one_error_child n \<Longrightarrow> one_error_child (updateAt p f n)"
  using assms(1)
proof (induction p arbitrary: n)
  case Nil
  then show ?case using assms by simp
next
  case (Cons i p)
  show ?case
  proof (cases n)
    case (Text s)
    then show ?thesis by simp
  next
    case (Elem e cs)
    from Cons.prems(2) Elem have i: "i < length cs" and at: "nodeAt (cs ! i) p = Some m"
      by (auto split: if_splits)
    have ci: "one_error_child (cs ! i)" using Cons.prems(1) Elem nth_mem [OF i] by auto
    have c': "one_error_child (updateAt p f (cs ! i))" by (rule Cons.IH [OF ci at])
    have em: "is_error_message_node (updateAt p f (cs ! i)) = is_error_message_node (cs ! i)"
      by (rule is_em_node_updateAt [of "cs ! i" p m f, OF at assms(3)])
    have cnt: "length (filter is_error_message_node (cs[i := updateAt p f (cs ! i)]))
               = length (filter is_error_message_node cs)"
      by (rule length_filter_update [OF i em])
    have "\<forall>c \<in> set (cs[i := updateAt p f (cs ! i)]). one_error_child c"
    proof
      fix c assume "c \<in> set (cs[i := updateAt p f (cs ! i)])"
      then have "c = updateAt p f (cs ! i) \<or> c \<in> set cs"
        using set_update_subset_insert [of cs i] by auto
      then show "one_error_child c" using c' Cons.prems(1) Elem by auto
    qed
    then show ?thesis using Elem i cnt Cons.prems(1) by simp
  qed
qed

lemma one_error_child_nodeAt:
  "one_error_child n \<Longrightarrow> nodeAt n p = Some m \<Longrightarrow> one_error_child m"
proof (induction p arbitrary: n)
  case Nil
  then show ?case by simp
next
  case (Cons i p)
  show ?case
  proof (cases n)
    case (Text s)
    with Cons.prems show ?thesis by simp
  next
    case (Elem e cs)
    from Cons.prems(2) Elem have i: "i < length cs" and at: "nodeAt (cs ! i) p = Some m"
      by (auto split: if_splits)
    have "one_error_child (cs ! i)" using Cons.prems(1) Elem nth_mem [OF i] by auto
    then show ?thesis by (rule Cons.IH [OF _ at])
  qed
qed

lemma one_error_child_updateAt_total:
  assumes "\<And>m. one_error_child m \<Longrightarrow> one_error_child (f m)"
    "\<And>m. is_error_message_node (f m) = is_error_message_node m"
    "one_error_child n"
  shows "one_error_child (updateAt p f n)"
proof (cases "nodeAt n p")
  case None
  then show ?thesis using assms(3) by (simp add: updateAt_invalid)
next
  case (Some m)
  have "one_error_child m" by (rule one_error_child_nodeAt [OF assms(3) Some])
  then have "one_error_child (f m)" by (rule assms(1))
  then show ?thesis
    using one_error_child_updateAt [of n p m f, OF Some _ assms(2) assms(3)] by simp
qed

lemma one_error_child_setTextContent [simp]: "one_error_child (setTextContent s m)"
  by (cases m) auto

lemma is_em_node_setTextContent [simp]:
  "is_error_message_node (setTextContent s m) = is_error_message_node m"
  by (cases m) auto

lemma one_error_child_on_elem [simp]: "one_error_child (on_elem g m) = one_error_child m"
  by (cases m) auto

lemma qs_nodes_None_roots:
  "qs_nodes is_error_message cs = None \<Longrightarrow> filter is_error_message_node cs = []"
proof -
  assume "qs_nodes is_error_message cs = None"
  then have a: "\<forall>e \<in> set (concat (map elems cs)). \<not> is_error_message e"
    by (simp add: qs_nodes_None)
  have "\<not> is_error_message_node c" if "c \<in> set cs" for c
  proof (cases c)
    case (Text s)
    then show ?thesis by simp
  next
    case (Elem e ccs)
    with that a show ?thesis by auto
  qed
  then show ?thesis by (simp add: filter_empty_conv)
qed

lemma show_local_one_error_child:
  assumes "one_error_child (Elem e cs)" "i < length cs" "cs ! i = Elem ei ci"
  shows "one_error_child (show_local i message (Elem e cs))
       \<and> is_error_message_node (show_local i message (Elem e cs)) = is_error_message e"
proof -
  define cs1 where "cs1 = cs[i := Elem (mark_invalid ei) ci]"
  have mk: "updateAt [i] (on_elem mark_invalid) (Elem e cs) = Elem e cs1"
    using assms by (simp add: cs1_def)
  have ci: "one_error_child (cs ! i)" using assms(1) nth_mem [OF assms(2)] by auto
  have w1: "one_error_child (Elem e cs1)"
    unfolding mk [symmetric]
    using one_error_child_updateAt [of "Elem e cs" "[i]" "cs ! i" "on_elem mark_invalid"] assms ci
    by (simp add: is_error_message_def mark_invalid_def class_contains_def class_add_def)
  show ?thesis
  proof (cases "qs_nodes is_error_message cs1")
    case None
    define x where "x = setTextContent message new_error_span"
    have r: "show_local i message (Elem e cs) = Elem e (cs1 @ [x])"
      using None by (simp add: show_local_alt [OF mk] querySelector_def x_def)
    have "filter is_error_message_node cs1 = []" by (rule qs_nodes_None_roots [OF None])
    then show ?thesis using r w1 by (simp add: x_def)
  next
    case (Some q)
    from qs_nodes_nonempty [OF Some] obtain j r where jr: "q = j # r" "j < length cs1" by blast
    from qs_nodes_Some [OF Some] obtain m where m: "nodeAt (Elem e cs1) q = Some m"
      using jr by (auto simp: nodeAt_list_def)
    have r: "show_local i message (Elem e cs) = updateAt q (setTextContent message) (Elem e cs1)"
      using Some by (simp add: show_local_alt [OF mk] querySelector_def)
    have "one_error_child (updateAt q (setTextContent message) (Elem e cs1))"
      using one_error_child_updateAt [of "Elem e cs1" q m "setTextContent message", OF m _ _ w1]
      by simp
    moreover have "is_error_message_node (updateAt q (setTextContent message) (Elem e cs1))
                   = is_error_message e"
      using jr by simp
    ultimately show ?thesis using r by simp
  qed
qed

lemma showError_one_error_child:
  assumes "querySelector P form = Some p" "one_error_child form"
  shows "\<exists>form'. showError form (Some p) message = Some form' \<and> one_error_child form'"
proof -
  from querySelector_Some [OF assms(1)] obtain ei ci where
    ne: "p \<noteq> []" and at: "nodeAt form p = Some (Elem ei ci)" by blast
  from nodeAt_butlast [OF at ne] obtain parent0 where
    par: "nodeAt form (butlast p) = Some parent0" and
    i: "last p < length (children parent0)" and ch: "children parent0 ! last p = Elem ei ci"
    by blast
  obtain e cs where p0: "parent0 = Elem e cs" using i by (cases parent0) auto
  have w0: "one_error_child (Elem e cs)"
    using one_error_child_nodeAt [OF assms(2) par] p0 by simp
  from show_local_one_error_child [OF w0, of "last p" ei ci message] i ch p0
  have sl: "one_error_child (show_local (last p) message parent0)"
    "is_error_message_node (show_local (last p) message parent0) = is_error_message_node parent0"
    by simp_all
  have "one_error_child (updateAt (butlast p) (show_local (last p) message) form)"
    by (rule one_error_child_updateAt
          [of form "butlast p" parent0 "show_local (last p) message", OF par sl assms(2)])
  then show ?thesis using showError_local [OF ne par, of message] by simp
qed

lemma one_error_child_remove: "one_error_child (remove_error_messages n)"
proof (induction n)
  case (Text s)
  then show ?case by simp
next
  case (Elem e cs)
  have em: "is_error_message_node (remove_error_messages c) = is_error_message_node c" for c
    by (cases c) simp_all
  have "filter is_error_message_node
          (map remove_error_messages (filter (\<lambda>c. \<not> is_error_message_node c) cs)) = []"
    by (simp add: filter_empty_conv em)
  then show ?case using Elem by simp
qed

lemma validateForm_one_error_child:
  assumes "one_error_child form"
  shows "\<exists>ok form'. validateForm form = Some (ok, form') \<and> one_error_child form'"
proof -
  have sh: "\<exists>form'. map_option (Pair False) (showError form el m) = Some (False, form')
              \<and> one_error_child form'"
    if "el = None \<or> (\<exists>P p. el = Some p \<and> querySelector P form = Some p)" for el m
    using that
  proof
    assume "el = None"
    then show ?thesis using assms by (simp add: showError_def)
  next
    assume "\<exists>P p. el = Some p \<and> querySelector P form = Some p"
    then obtain P p where "el = Some p" "querySelector P form = Some p" by blast
    then show ?thesis using showError_one_error_child [OF _ assms, of P p m] by auto
  qed
  have e: "querySelector is_email form = None
           \<or> (\<exists>P p. querySelector is_email form = Some p \<and> querySelector P form = Some p)"
    by (cases "querySelector is_email form") auto
  have t: "querySelector is_textarea form = None
           \<or> (\<exists>P p. querySelector is_textarea form = Some p \<and> querySelector P form = Some p)"
    by (cases "querySelector is_textarea form") auto
  have c: "one_error_child (clearErrors form)"
    by (simp add: clearErrors_def one_error_child_remove)
  from sh [OF e] obtain f1 where
    f1: "showError form (querySelector is_email form) (js ''Email is required'') = Some f1"
        "one_error_child f1"
    by auto
  from sh [OF e] obtain f2 where
    f2: "showError form (querySelector is_email form) (js ''Please enter a valid email'') = Some f2"
        "one_error_child f2"
    by auto
  from sh [OF t] obtain f3 where
    f3: "showError form (querySelector is_textarea form) (js ''Message is required'') = Some f3"
        "one_error_child f3"
    by auto
  show ?thesis
    using f1 f2 f3 c by (auto simp: validateForm_def Let_def)
qed

lemma handleSubmit_one_error_child:
  assumes "one_error_child form"
  shows "\<exists>form' ts. handleSubmit form = Some (form', ts) \<and> one_error_child form'"
proof -
  from validateForm_one_error_child [OF assms] obtain ok form1 where
    v: "validateForm form = Some (ok, form1)" and w: "one_error_child form1" by blast
  show ?thesis
  proof (cases "ok \<and> querySelector is_submit form1 \<noteq> None")
    case False
    then show ?thesis using v w by (auto simp: handleSubmit_def)
  next
    case True
    then obtain b where b: "querySelector is_submit form1 = Some b" by auto
    have "one_error_child (updateAt b (on_elem (\<lambda>e. e\<lparr>disabled := True\<rparr>))
            (updateAt b (setTextContent message_sent) form1))"
    proof (intro one_error_child_updateAt_total w)
      fix m show "is_error_message_node (on_elem (\<lambda>e. e\<lparr>disabled := True\<rparr>) m)
                  = is_error_message_node m"
        by (cases m) (simp_all add: is_error_message_def)
    qed simp_all
    then show ?thesis using v True b by (simp add: handleSubmit_def Let_def)
  qed
qed


lemma user_edit_one_error_child: "one_error_child form \<Longrightarrow> one_error_child (user_edit pv form)"
  unfolding user_edit_def
proof (intro one_error_child_updateAt_total)
  fix m show "is_error_message_node (on_elem (\<lambda>e. e\<lparr>val := snd pv\<rparr>) m) = is_error_message_node m"
    by (cases m) (simp_all add: is_error_message_def)
qed simp_all

lemma fold_user_edit_one_error_child:
  "one_error_child form \<Longrightarrow> one_error_child (fold user_edit edits form)"
  by (induction edits arbitrary: form) (simp_all add: user_edit_one_error_child)

lemma session_one_error_child:
  "one_error_child form \<Longrightarrow> \<exists>form'. session rounds form = Some form' \<and> one_error_child form'"
proof (induction rounds arbitrary: form)
  case Nil
  then show ?case by simp
next
  case (Cons edits rounds)
  have "one_error_child (fold user_edit edits form)"
    by (rule fold_user_edit_one_error_child [OF Cons.prems])
  from handleSubmit_one_error_child [OF this] obtain form1 ts where
    h: "handleSubmit (fold user_edit edits form) = Some (form1, ts)" "one_error_child form1"
    by blast
  from Cons.IH [OF h(2)] h(1) show ?case by simp
qed

lemma sum_list_update_nat:
  "i < length xs \<Longrightarrow>
     sum_list (map f (xs[i := x])) + f (xs ! i) = sum_list (map f xs) + (f x :: nat)"
proof (induction xs arbitrary: i)
  case Nil
  then show ?case by simp
next
  case (Cons a xs)
  then show ?case by (cases i) (auto simp: add.assoc add.left_commute)
qed

lemma length_filter_concat:
  "length (filter P (concat xss)) = sum_list (map (\<lambda>xs. length (filter P xs)) xss)"
  by (induction xss) simp_all

lemma count_elems_Elem:
  "count_elems P (Elem e cs) = (if P e then 1 else 0) + sum_list (map (count_elems P) cs)"
  unfolding count_elems_def by (simp add: length_filter_concat o_def)

lemma count_elems_Text [simp]: "count_elems P (Text s) = 0"
  by (simp add: count_elems_def)

lemma count_elems_updateAt:
  "nodeAt n p = Some m \<Longrightarrow>
     count_elems P (updateAt p f n) + count_elems P m = count_elems P n + count_elems P (f m)"
proof (induction p arbitrary: n)
  case Nil
  then show ?case by simp
next
  case (Cons i p)
  show ?case
  proof (cases n)
    case (Text s)
    with Cons.prems show ?thesis by simp
  next
    case (Elem e cs)
    from Cons.prems Elem have i: "i < length cs" and at: "nodeAt (cs ! i) p = Some m"
      by (auto split: if_splits)
    have "sum_list (map (count_elems P) (cs[i := updateAt p f (cs ! i)])) + count_elems P (cs ! i)
          = sum_list (map (count_elems P) cs) + count_elems P (updateAt p f (cs ! i))"
      by (rule sum_list_update_nat [OF i])
    with Cons.IH [OF at] show ?thesis
      using Elem i by (simp add: count_elems_Elem)
  qed
qed

lemma length_querySelectorAll:
  "length (querySelectorAll P (Elem e cs)) + (if P e then 1 else 0) = count_elems P (Elem e cs)"
  by (simp add: querySelectorAll_def descendants_def count_elems_def)

lemma querySelector_None_count:
  "(querySelector P n = None) = (length (querySelectorAll P n) = 0)"
  by (simp add: querySelector_None querySelectorAll_def filter_empty_conv)

lemma count_elems_setTextContent:
  "count_elems P (setTextContent s (Elem e cs)) = (if P e then 1 else 0)"
  by (simp add: count_elems_def)

lemma show_local_counts:
  assumes "i < length cs" "cs ! i = Elem ei ci"
  shows "\<exists>cs'. show_local i message (Elem e cs) = Elem e cs'
           \<and> (if querySelector is_error_message (Elem e cs) = None
               then length (querySelectorAll is_error_message (Elem e cs')) = 1
                    \<and> length (descendants (Elem e cs')) = Suc (length (descendants (Elem e cs)))
               else 1 \<le> length (querySelectorAll is_error_message (Elem e cs'))
                    \<and> length (querySelectorAll is_error_message (Elem e cs'))
                        \<le> length (querySelectorAll is_error_message (Elem e cs))
                    \<and> length (descendants (Elem e cs')) \<le> length (descendants (Elem e cs)))"
proof -
  define cs1 where "cs1 = cs[i := Elem (mark_invalid ei) ci]"
  have mk: "updateAt [i] (on_elem mark_invalid) (Elem e cs) = Elem e cs1"
    using assms by (simp add: cs1_def)
  have at: "nodeAt (Elem e cs) [i] = Some (Elem ei ci)" using assms by simp
  have cnt1: "count_elems P (Elem e cs1) = count_elems P (Elem e cs)"
    if "P (mark_invalid ei) = P ei" for P
  proof -
    have "count_elems P (updateAt [i] (on_elem mark_invalid) (Elem e cs))
            + count_elems P (Elem ei ci)
          = count_elems P (Elem e cs) + count_elems P (on_elem mark_invalid (Elem ei ci))"
      by (rule count_elems_updateAt [OF at])
    then have "count_elems P (Elem e cs1) + count_elems P (Elem ei ci)
          = count_elems P (Elem e cs) + count_elems P (Elem (mark_invalid ei) ci)"
      unfolding mk by simp
    moreover have "count_elems P (Elem (mark_invalid ei) ci) = count_elems P (Elem ei ci)"
      using that by (simp add: count_elems_def)
    ultimately show ?thesis by simp
  qed
  have em1: "length (querySelectorAll is_error_message (Elem e cs1))
             = length (querySelectorAll is_error_message (Elem e cs))"
    using cnt1 [of is_error_message] length_querySelectorAll [of is_error_message e cs1]
      length_querySelectorAll [of is_error_message e cs]
    by simp
  have all1: "length (descendants (Elem e cs1)) = length (descendants (Elem e cs))"
    using cnt1 [of "\<lambda>_. True"] length_querySelectorAll [of "\<lambda>_. True" e cs1]
      length_querySelectorAll [of "\<lambda>_. True" e cs]
    by (simp add: querySelectorAll_def)
  have none_iff: "(querySelector is_error_message (Elem e cs) = None)
                  = (qs_nodes is_error_message cs1 = None)"
    using em1 querySelector_None_count [of is_error_message "Elem e cs"]
      querySelector_None_count [of is_error_message "Elem e cs1"]
    by (simp add: querySelector_def)
  show ?thesis
  proof (cases "qs_nodes is_error_message cs1")
    case None
    define x where "x = setTextContent message new_error_span"
    have r: "show_local i message (Elem e cs) = Elem e (cs1 @ [x])"
      using None by (simp add: show_local_alt [OF mk] querySelector_def x_def)
    have ex: "elems x = [\<lparr>kind = Other, classes = [''error-message''], aria_invalid = None,
                          val = [], default_val = [], disabled = False\<rparr>]"
      by (simp add: x_def new_error_span_def)
    have z: "length (querySelectorAll is_error_message (Elem e cs1)) = 0"
      using None querySelector_None_count [of is_error_message "Elem e cs1"]
      by (simp add: querySelector_def)
    have a: "length (querySelectorAll is_error_message (Elem e (cs1 @ [x]))) = 1"
      using z by (simp add: querySelectorAll_def descendants_def ex is_error_message_def
            class_contains_def)
    have b: "length (descendants (Elem e (cs1 @ [x]))) = Suc (length (descendants (Elem e cs)))"
      using all1 by (simp add: descendants_def ex)
    show ?thesis using r a b None none_iff by simp
  next
    case (Some q)
    from qs_nodes_nonempty [OF Some] obtain j r where jr: "q = j # r" "j < length cs1" by blast
    from qs_nodes_Some [OF Some] obtain em mcs where
      m: "nodeAt (Elem e cs1) q = Some (Elem em mcs)" and isem: "is_error_message em"
      using jr by (auto simp: nodeAt_list_def)
    define cs' where "cs' = cs1[j := updateAt r (setTextContent message) (cs1 ! j)]"
    have r: "show_local i message (Elem e cs) = Elem e cs'"
      using Some jr by (simp add: show_local_alt [OF mk] querySelector_def cs'_def)
    have u: "updateAt q (setTextContent message) (Elem e cs1) = Elem e cs'"
      using jr by (simp add: cs'_def)
    have cnt: "count_elems P (Elem e cs') + count_elems P (Elem em mcs)
               = count_elems P (Elem e cs1) + (if P em then 1 else 0)" for P
      using count_elems_updateAt [OF m, of P "setTextContent message"]
      by (simp only: u count_elems_setTextContent)
    have ge: "(if P em then 1 else 0) \<le> count_elems P (Elem em mcs)" for P
      by (simp add: count_elems_Elem)
    have le: "count_elems P (Elem e cs') \<le> count_elems P (Elem e cs1)" for P
      using cnt [of P] ge [of P] by linarith
    have a: "length (querySelectorAll is_error_message (Elem e cs'))
             \<le> length (querySelectorAll is_error_message (Elem e cs))"
      using le [of is_error_message] length_querySelectorAll [of is_error_message e cs']
        length_querySelectorAll [of is_error_message e cs1] em1
      by simp
    have b: "length (descendants (Elem e cs')) \<le> length (descendants (Elem e cs))"
      using le [of "\<lambda>_. True"] length_querySelectorAll [of "\<lambda>_. True" e cs']
        length_querySelectorAll [of "\<lambda>_. True" e cs1] all1
      by (simp add: querySelectorAll_def)
    have st: "qs_nodes is_error_message cs' = Some q"
      using qs_nodes_stable [of "setTextContent message" is_error_message cs1 q e, OF _ Some] u
      by simp
    have c: "1 \<le> length (querySelectorAll is_error_message (Elem e cs'))"
      using st querySelector_None_count [of is_error_message "Elem e cs'"]
      by (cases "querySelectorAll is_error_message (Elem e cs')") (simp_all add: querySelector_def)
    show ?thesis using r a b c Some none_iff by simp
  qed
qed

lemma map_concat_update:
  "i < length cs \<Longrightarrow> map P (h c') = map P (h (cs ! i)) \<Longrightarrow>
     map P (concat (map h (cs[i := c']))) = map P (concat (map h cs))"
proof (induction cs arbitrary: i)
  case Nil
  then show ?case by simp
next
  case (Cons a cs)
  then show ?case by (cases i) simp_all
qed

lemma map_elems_edit:
  assumes "\<And>e. P (g e) = P e"
  shows "map P (elems (updateAt r (on_elem g) n)) = map P (elems n)"
proof (induction r arbitrary: n)
  case Nil
  then show ?case using assms by (cases n) simp_all
next
  case (Cons i r)
  show ?case
  proof (cases n)
    case (Text t)
    then show ?thesis by simp
  next
    case (Elem e cs)
    show ?thesis
    proof (cases "i < length cs")
      case True
      have "map P (concat (map elems (cs[i := updateAt r (on_elem g) (cs ! i)])))
            = map P (concat (map elems cs))"
        using map_concat_update [of i cs P elems "updateAt r (on_elem g) (cs ! i)"] True
          Cons.IH [of "cs ! i"]
        by simp
      then show ?thesis using Elem True by simp
    next
      case False
      then show ?thesis using Elem by simp
    qed
  qed
qed

lemma nodeAt_edit:
  assumes "\<And>e. P (g e) = P e"
  shows "nodeAt n pp = Some m \<Longrightarrow>
           \<exists>m'. nodeAt (updateAt r (on_elem g) n) pp = Some m' \<and> map P (elems m') = map P (elems m)"
proof (induction pp arbitrary: r n)
  case Nil
  then show ?case using map_elems_edit [of P g r n, OF assms] by simp
next
  case (Cons j pp)
  show ?case
  proof (cases n)
    case (Text t)
    with Cons.prems show ?thesis by simp
  next
    case (Elem e cs)
    from Cons.prems Elem have j: "j < length cs" and at: "nodeAt (cs ! j) pp = Some m"
      by (auto split: if_splits)
    show ?thesis
    proof (cases r)
      case Nil
      then show ?thesis using Elem j at by simp
    next
      case (Cons i r')
      show ?thesis
      proof (cases "i < length cs \<and> i = j")
        case True
        from Cons.IH [OF at, of r'] show ?thesis using Elem Cons True by simp
      next
        case False
        then show ?thesis using Elem Cons j at by auto
      qed
    qed
  qed
qed

lemma length_querySelectorAll_map:
  assumes "map P (elems m') = map P (elems m)"
  shows "length (querySelectorAll P m') = length (querySelectorAll P m)"
proof -
  have f: "length (filter P xs) = length (filter id (map P xs))" for xs :: "elem list"
    by (induction xs) simp_all
  have d: "map P (descendants n) = tl (map P (elems n))" for n
    by (cases n) (simp_all add: descendants_def)
  show ?thesis
    unfolding querySelectorAll_def f d assms ..
qed

lemma user_edits_keep_count:
  "nodeAt form pp = Some m \<Longrightarrow>
     \<exists>m'. nodeAt (fold user_edit edits form) pp = Some m'
        \<and> length (querySelectorAll is_error_message m')
            = length (querySelectorAll is_error_message m)"
proof (induction edits arbitrary: form m)
  case Nil
  then show ?case by simp
next
  case (Cons pv edits)
  from nodeAt_edit [of is_error_message "\<lambda>e. e\<lparr>val := snd pv\<rparr>" form pp m "fst pv", OF _ Cons.prems]
  obtain m1 where m1: "nodeAt (user_edit pv form) pp = Some m1"
    "map is_error_message (elems m1) = map is_error_message (elems m)"
    by (auto simp: user_edit_def is_error_message_def)
  from Cons.IH [OF m1(1)] length_querySelectorAll_map [OF m1(2)] show ?case by simp
qed

lemma failing_field_Some:
  assumes "failing_field form = Some p"
  shows "\<exists>P message. querySelector P form = Some p
           \<and> validateForm form = map_option (Pair False) (showError form (Some p) message)"
proof (cases "querySelector is_email form")
  case None
  with assms show ?thesis by (simp add: failing_field_def)
next
  case (Some pe)
  show ?thesis
  proof (cases "trim (value_at form pe) = [] \<or> \<not> isValidEmail (value_at form pe)")
    case True
    with assms Some have p: "p = pe" by (simp add: failing_field_def)
    have "validateForm form = map_option (Pair False) (showError form (Some p) (js ''Email is required''))
        \<or> validateForm form
            = map_option (Pair False) (showError form (Some p) (js ''Please enter a valid email''))"
      using True Some p by (auto simp: validateForm_def Let_def)
    with Some p show ?thesis by blast
  next
    case False
    with assms Some obtain q where
      q: "querySelector is_textarea form = Some q" "trim (value_at form q) = []" "p = q"
      by (auto simp: failing_field_def split: option.splits if_splits)
    have "validateForm form
          = map_option (Pair False) (showError form (Some p) (js ''Message is required''))"
      using False Some q by (simp add: validateForm_def Let_def)
    with q show ?thesis by blast
  qed
qed

lemma showError_counts:
  assumes q: "querySelector P form = Some p"
  shows "\<exists>form' parent0 parent'.
                showError form (Some p) message = Some form'
              \<and> nodeAt form (butlast p) = Some parent0
              \<and> nodeAt form' (butlast p) = Some parent'
              \<and> error_shown form' p message
              \<and> (if querySelector is_error_message parent0 = None
                  then length (querySelectorAll is_error_message parent') = 1
                       \<and> length (descendants parent') = Suc (length (descendants parent0))
                  else 1 \<le> length (querySelectorAll is_error_message parent')
                       \<and> length (querySelectorAll is_error_message parent')
                           \<le> length (querySelectorAll is_error_message parent0)
                       \<and> length (descendants parent') \<le> length (descendants parent0))
              \<and> (length (querySelectorAll is_error_message parent0) \<le> 1 \<longrightarrow>
                    length (querySelectorAll is_error_message parent') = 1)"
proof -
  from querySelector_Some [OF q] obtain ei ci where
    ne: "p \<noteq> []" and at: "nodeAt form p = Some (Elem ei ci)" by blast
  from nodeAt_butlast [OF at ne] obtain parent0 where
    par: "nodeAt form (butlast p) = Some parent0" and
    i: "last p < length (children parent0)" and ch: "children parent0 ! last p = Elem ei ci"
    by blast
  obtain e cs where p0: "parent0 = Elem e cs" using i by (cases parent0) auto
  from show_local_counts [of "last p" cs ei ci message e] i ch p0
  obtain cs' where
    sl: "show_local (last p) message parent0 = Elem e cs'" and
    cnt: "if querySelector is_error_message parent0 = None
          then length (querySelectorAll is_error_message (Elem e cs')) = 1
               \<and> length (descendants (Elem e cs')) = Suc (length (descendants parent0))
          else 1 \<le> length (querySelectorAll is_error_message (Elem e cs'))
               \<and> length (querySelectorAll is_error_message (Elem e cs'))
                   \<le> length (querySelectorAll is_error_message parent0)
               \<and> length (descendants (Elem e cs')) \<le> length (descendants parent0)"
    by auto
  define form' where "form' = updateAt (butlast p) (show_local (last p) message) form"
  have s: "showError form (Some p) message = Some form'"
    unfolding form'_def by (rule showError_local [OF ne par])
  have np: "nodeAt form' (butlast p) = Some (Elem e cs')"
    using nodeAt_updateAt_same [OF par, of "show_local (last p) message"] sl
    by (simp add: form'_def)
  from showError_shown [OF q, of message] s have es: "error_shown form' p message" by simp
  have one: "length (querySelectorAll is_error_message parent0) \<le> 1 \<longrightarrow>
               length (querySelectorAll is_error_message (Elem e cs')) = 1"
    using cnt by (auto split: if_splits)
  show ?thesis
    using s par np es cnt one by blast
qed

lemma same_field_rounds:
  "fails_on p rounds form \<Longrightarrow> nodeAt form (butlast p) = Some parent \<Longrightarrow>
   length (querySelectorAll is_error_message parent) \<le> 1 \<Longrightarrow>
     \<exists>form' parent'. session rounds form = Some form'
        \<and> nodeAt form' (butlast p) = Some parent'
        \<and> length (querySelectorAll is_error_message parent') \<le> 1
        \<and> (rounds \<noteq> [] \<longrightarrow> length (querySelectorAll is_error_message parent') = 1)"
proof (induction rounds arbitrary: form parent)
  case Nil
  then show ?case by simp
next
  case (Cons edits rounds)
  define f where "f = fold user_edit edits form"
  from Cons.prems(1) have ff: "failing_field f = Some p" by (simp add: f_def)
  from user_edits_keep_count [OF Cons.prems(2), of edits] Cons.prems(3) obtain m1 where
    m1: "nodeAt f (butlast p) = Some m1" "length (querySelectorAll is_error_message m1) \<le> 1"
    by (auto simp: f_def)
  from failing_field_Some [OF ff] obtain P message where
    q: "querySelector P f = Some p" and
    v: "validateForm f = map_option (Pair False) (showError f (Some p) message)" by blast
  from showError_counts [OF q, of message] m1 obtain form1 parent1 where
    s: "showError f (Some p) message = Some form1" and
    n1: "nodeAt form1 (butlast p) = Some parent1" and
    c1: "length (querySelectorAll is_error_message parent1) = 1"
    by auto
  have h: "handleSubmit f = Some (form1, [])"
    using v s by (simp add: handleSubmit_def)
  from Cons.prems(1) h have fo: "fails_on p rounds form1" by (simp add: f_def)
  from c1 have c1': "length (querySelectorAll is_error_message parent1) \<le> 1" by simp
  from Cons.IH [OF fo n1 c1'] obtain form' parent' where
    r: "session rounds form1 = Some form'" "nodeAt form' (butlast p) = Some parent'"
       "length (querySelectorAll is_error_message parent') \<le> 1"
       "rounds \<noteq> [] \<longrightarrow> length (querySelectorAll is_error_message parent') = 1"
    by blast
  have one: "length (querySelectorAll is_error_message parent') = 1"
  proof (cases rounds)
    case Nil
    with r(1,2) n1 c1 show ?thesis by simp
  next
    case (Cons a list)
    with r(4) show ?thesis by simp
  qed
  have "session (edits # rounds) form = Some form'"
    using h r(1) by (simp add: f_def)
  with r(2) one show ?case by auto
qed

text \<open>
  C6. Take a form in which every element has at most one error message element among its
  children, as any markup without duplicated error messages is. After every sequence of
  rounds, each a list of edits of field values followed by a submission, the handler has
  returned and the same holds: in particular the parent of each field has at most one
  error message child. When \<^verbatim>\<open>showError\<close> runs for a field the error is shown, and: if
  the field's parent holds no error message element anywhere inside it, one element is
  created, and the parent then holds exactly one; if it holds one, no element is created
  (the parent has no more elements and no more error message elements inside it than
  before, and at least one), the first one's text being set. And whatever the form: when
  every round of a sequence shows its error for the same field, and the parent of that
  field held at most one error message element anywhere inside it, it holds exactly one
  after the sequence. A timer set by a successful round is not run within the sequence.
\<close>

theorem at_most_one_error_message:
  assumes "one_error_child form"
  shows "(\<exists>form'. session rounds form = Some form' \<and> one_error_child form'
            \<and> (\<forall>pp parent. nodeAt form' pp = Some parent \<longrightarrow>
                  length (filter is_error_message_node (children parent)) \<le> 1))
       \<and> (\<forall>p. querySelector P form = Some p \<longrightarrow>
            (\<exists>form' parent0 parent'.
                showError form (Some p) message = Some form'
              \<and> nodeAt form (butlast p) = Some parent0
              \<and> nodeAt form' (butlast p) = Some parent'
              \<and> error_shown form' p message
              \<and> (if querySelector is_error_message parent0 = None
                  then length (querySelectorAll is_error_message parent') = 1
                       \<and> length (descendants parent') = Suc (length (descendants parent0))
                  else 1 \<le> length (querySelectorAll is_error_message parent')
                       \<and> length (querySelectorAll is_error_message parent')
                           \<le> length (querySelectorAll is_error_message parent0)
                       \<and> length (descendants parent') \<le> length (descendants parent0))
              \<and> (length (querySelectorAll is_error_message parent0) \<le> 1 \<longrightarrow>
                    length (querySelectorAll is_error_message parent') = 1)))
       \<and> (\<forall>p parent. rounds \<noteq> [] \<and> fails_on p rounds form
              \<and> nodeAt form (butlast p) = Some parent
              \<and> length (querySelectorAll is_error_message parent) \<le> 1 \<longrightarrow>
            (\<exists>form' parent'. session rounds form = Some form'
               \<and> nodeAt form' (butlast p) = Some parent'
               \<and> length (querySelectorAll is_error_message parent') = 1))"
proof (intro conjI allI impI)
  from session_one_error_child [OF assms, of rounds] obtain form' where
    s: "session rounds form = Some form'" "one_error_child form'" by blast
  have "length (filter is_error_message_node (children parent)) \<le> 1"
    if "nodeAt form' pp = Some parent" for pp parent
    using one_error_child_nodeAt [OF s(2) that] by (cases parent) simp_all
  with s show "\<exists>form'. session rounds form = Some form' \<and> one_error_child form'
            \<and> (\<forall>pp parent. nodeAt form' pp = Some parent \<longrightarrow>
                  length (filter is_error_message_node (children parent)) \<le> 1)"
    by blast
next
  fix p assume "querySelector P form = Some p"
  then show "\<exists>form' parent0 parent'.
                showError form (Some p) message = Some form'
              \<and> nodeAt form (butlast p) = Some parent0
              \<and> nodeAt form' (butlast p) = Some parent'
              \<and> error_shown form' p message
              \<and> (if querySelector is_error_message parent0 = None
                  then length (querySelectorAll is_error_message parent') = 1
                       \<and> length (descendants parent') = Suc (length (descendants parent0))
                  else 1 \<le> length (querySelectorAll is_error_message parent')
                       \<and> length (querySelectorAll is_error_message parent')
                           \<le> length (querySelectorAll is_error_message parent0)
                       \<and> length (descendants parent') \<le> length (descendants parent0))
              \<and> (length (querySelectorAll is_error_message parent0) \<le> 1 \<longrightarrow>
                    length (querySelectorAll is_error_message parent') = 1)"
    by (rule showError_counts)
next
  fix p parent
  assume a: "rounds \<noteq> [] \<and> fails_on p rounds form
              \<and> nodeAt form (butlast p) = Some parent
              \<and> length (querySelectorAll is_error_message parent) \<le> 1"
  then have "fails_on p rounds form" "nodeAt form (butlast p) = Some parent"
    "length (querySelectorAll is_error_message parent) \<le> 1" "rounds \<noteq> []" by simp_all
  from same_field_rounds [OF this(1,2,3)] this(4)
  show "\<exists>form' parent'. session rounds form = Some form'
               \<and> nodeAt form' (butlast p) = Some parent'
               \<and> length (querySelectorAll is_error_message parent') = 1"
    by blast
qed

theorem at_most_one_error_message_witness:
  "one_error_child (contact_form [] [])
   \<and> (\<exists>form'. session [[([0, 0], js ''x'')], [([0, 0], js '' '')], [([0, 0], js ''a@b.co'')]]
                 (contact_form [] []) = Some form'
         \<and> one_error_child form'
         \<and> map (\<lambda>c. length (querySelectorAll is_error_message c)) (children form') = [1, 1, 0])
   \<and> fails_on [0, 0] [[([0, 0], js ''x'')], [([0, 0], js '' '')], []] (contact_form [] [])
   \<and> (\<exists>form' parent'. session [[([0, 0], js ''x'')], [([0, 0], js '' '')], []]
                 (contact_form [] []) = Some form'
         \<and> nodeAt form' [0] = Some parent'
         \<and> length (querySelectorAll is_error_message parent') = 1)"
proof -
  have h: "one_error_child (contact_form [] [])"
    by (simp add: contact_form_def plain_def is_error_message_def class_contains_def)
  have e: "map_option (\<lambda>f. map (\<lambda>c. length (querySelectorAll is_error_message c)) (children f))
             (session [[([0, 0], js ''x'')], [([0, 0], js '' '')], [([0, 0], js ''a@b.co'')]]
                (contact_form [] [])) = Some [1, 1, 0]"
    by (simp add: form_eval user_edit_def)
  from at_most_one_error_message [OF h,
      of "[[([0, 0], js ''x'')], [([0, 0], js '' '')], [([0, 0], js ''a@b.co'')]]"
         is_email "js ''Email is required''"]
  obtain form' where
    s: "session [[([0, 0], js ''x'')], [([0, 0], js '' '')], [([0, 0], js ''a@b.co'')]]
          (contact_form [] []) = Some form'" "one_error_child form'"
    by blast
  from e s(1)
  have m: "map (\<lambda>c. length (querySelectorAll is_error_message c)) (children form') = [1, 1, 0]"
    by simp
  have fo: "fails_on [0, 0] [[([0, 0], js ''x'')], [([0, 0], js '' '')], []] (contact_form [] [])"
    by (simp add: form_eval failing_field_def user_edit_def)
  have pa: "nodeAt (contact_form [] []) (butlast [0, 0]) = Some (plain Other [] [plain EmailInput [] []])"
    by (simp add: contact_form_def plain_def)
  have pc: "length (querySelectorAll is_error_message (plain Other [] [plain EmailInput [] []])) \<le> 1"
    by (simp add: plain_def querySelectorAll_def descendants_def is_error_message_def
          class_contains_def)
  from at_most_one_error_message [OF h,
      of "[[([0, 0], js ''x'')], [([0, 0], js '' '')], []]" is_email "js ''Email is required''"]
  have "\<forall>p parent. [[([0, 0], js ''x'')], [([0, 0], js '' '')], []] \<noteq> []
          \<and> fails_on p [[([0, 0], js ''x'')], [([0, 0], js '' '')], []] (contact_form [] [])
          \<and> nodeAt (contact_form [] []) (butlast p) = Some parent
          \<and> length (querySelectorAll is_error_message parent) \<le> 1 \<longrightarrow>
        (\<exists>form' parent'. session [[([0, 0], js ''x'')], [([0, 0], js '' '')], []]
                            (contact_form [] []) = Some form'
           \<and> nodeAt form' (butlast p) = Some parent'
           \<and> length (querySelectorAll is_error_message parent') = 1)"
    by blast
  with fo pa pc
  have "\<exists>form' parent'. session [[([0, 0], js ''x'')], [([0, 0], js '' '')], []]
                            (contact_form [] []) = Some form'
           \<and> nodeAt form' (butlast [0, 0]) = Some parent'
           \<and> length (querySelectorAll is_error_message parent') = 1"
    by blast
  then obtain form2 parent2 where
    t: "session [[([0, 0], js ''x'')], [([0, 0], js '' '')], []] (contact_form [] []) = Some form2"
       "nodeAt form2 [0] = Some parent2"
       "length (querySelectorAll is_error_message parent2) = 1"
    by auto
  show ?thesis
    by (intro conjI exI [of _ form'] exI [of _ form2] exI [of _ parent2]) (rule h s m fo t)+
qed

section \<open>Stale errors\<close>


lemma elem_at_Nil [simp]: "elem_at n [] = elem_of n"
  by (simp add: elem_at_def)

lemma elem_at_Cons:
  "elem_at n (i # s) = (if i < length (children n) then elem_at (children n ! i) s else None)"
  by (simp add: elem_at_def)

lemma elem_at_mark:
  "elem_at (updateAt q (on_elem g) n) s
   = (if s = q then map_option g (elem_at n q) else elem_at n s)"
proof (induction q arbitrary: n s)
  case Nil
  show ?case
  proof (cases s)
    case Nil
    then show ?thesis by (cases n) simp_all
  next
    case (Cons j s')
    then show ?thesis by (cases n) (simp_all add: elem_at_Cons)
  qed
next
  case (Cons i q)
  show ?case
  proof (cases n)
    case (Text t)
    then show ?thesis by (cases s) (simp_all add: elem_at_Cons)
  next
    case (Elem e cs)
    show ?thesis
    proof (cases s)
      case Nil
      then show ?thesis using Elem by simp
    next
      case (Cons j s')
      show ?thesis
      proof (cases "i < length cs")
        case True
        then show ?thesis
          using Elem Cons Cons.IH [of "cs ! i" s']
          by (cases "j = i") (simp_all add: elem_at_Cons)
      next
        case False
        then show ?thesis using Elem Cons by (auto simp: elem_at_Cons)
      qed
    qed
  qed
qed

lemma stay_updateAt:
  assumes "\<And>s e. elem_at m s = Some e \<Longrightarrow> elem_at (f m) s = Some e"
  shows "nodeAt n r = Some m \<Longrightarrow> elem_at n s = Some e \<Longrightarrow> elem_at (updateAt r f n) s = Some e"
proof (induction r arbitrary: n s)
  case Nil
  then show ?case using assms by simp
next
  case (Cons i r)
  show ?case
  proof (cases n)
    case (Text t)
    with Cons.prems show ?thesis by simp
  next
    case (Elem e0 cs)
    from Cons.prems(1) Elem have i: "i < length cs" and at: "nodeAt (cs ! i) r = Some m"
      by (auto split: if_splits)
    show ?thesis
    proof (cases s)
      case Nil
      with Cons.prems(2) Elem i show ?thesis by simp
    next
      case (Cons j s')
      show ?thesis
      proof (cases "j = i")
        case True
        with Cons Cons.prems(2) Elem i have "elem_at (cs ! i) s' = Some e"
          by (simp add: elem_at_Cons)
        from Cons.IH [OF at this] show ?thesis using Cons True Elem i by (simp add: elem_at_Cons)
      next
        case False
        with Cons Cons.prems(2) Elem i show ?thesis
          by (auto simp: elem_at_Cons split: if_splits)
      qed
    qed
  qed
qed

lemma stay_appendChild: "elem_at m s = Some e \<Longrightarrow> elem_at (appendChild x m) s = Some e"
proof (cases m)
  case (Text t)
  assume "elem_at m s = Some e"
  with Text show ?thesis by simp
next
  case (Elem e0 cs)
  assume a: "elem_at m s = Some e"
  show ?thesis
  proof (cases s)
    case Nil
    with a Elem show ?thesis by simp
  next
    case (Cons j s')
    with a Elem show ?thesis by (auto simp: elem_at_Cons nth_append split: if_splits)
  qed
qed

lemma elem_at_is_text: "is_text c \<Longrightarrow> elem_at c s = None"
  by (cases c; cases s) (simp_all add: elem_at_Cons)

lemma stay_setTextContent:
  assumes "\<forall>c \<in> set (children m). is_text c"
  shows "elem_at m s = Some e \<Longrightarrow> elem_at (setTextContent t m) s = Some e"
proof (cases s)
  case Nil
  assume "elem_at m s = Some e"
  with Nil show ?thesis by simp
next
  case (Cons j s')
  assume a: "elem_at m s = Some e"
  then have j: "j < length (children m)" and "elem_at (children m ! j) s' = Some e"
    using Cons by (auto simp: elem_at_Cons split: if_splits)
  moreover have "is_text (children m ! j)" using assms nth_mem [OF j] by blast
  ultimately show ?thesis using elem_at_is_text by fastforce
qed

lemma text_only_errors_nodeAt:
  "text_only_errors n \<Longrightarrow> nodeAt n r = Some (Elem e cs) \<Longrightarrow> is_error_message e \<Longrightarrow>
     \<forall>c \<in> set cs. is_text c"
proof (induction r arbitrary: n)
  case Nil
  then show ?case by simp
next
  case (Cons i r)
  show ?case
  proof (cases n)
    case (Text t)
    with Cons.prems show ?thesis by simp
  next
    case (Elem e0 cs0)
    from Cons.prems(2) Elem have i: "i < length cs0" and at: "nodeAt (cs0 ! i) r = Some (Elem e cs)"
      by (auto split: if_splits)
    have "text_only_errors (cs0 ! i)" using Cons.prems(1) Elem nth_mem [OF i] by auto
    from Cons.IH [OF this at Cons.prems(3)] show ?thesis .
  qed
qed

lemma is_text_updateAt_on_elem [simp]: "is_text (updateAt p (on_elem g) c) = is_text c"
  by (cases p; cases c) simp_all

lemma text_only_errors_mark:
  assumes "\<And>e. is_error_message (g e) = is_error_message e"
  shows "text_only_errors n \<Longrightarrow> text_only_errors (updateAt p (on_elem g) n)"
proof (induction p arbitrary: n)
  case Nil
  then show ?case using assms by (cases n) simp_all
next
  case (Cons i p)
  show ?case
  proof (cases n)
    case (Text t)
    then show ?thesis by simp
  next
    case (Elem e cs)
    show ?thesis
    proof (cases "i < length cs")
      case True
      have ci: "text_only_errors (cs ! i)" using Cons.prems Elem nth_mem [OF True] by auto
      have "\<forall>c \<in> set (cs[i := updateAt p (on_elem g) (cs ! i)]).
              text_only_errors c \<and> (is_error_message e \<longrightarrow> is_text c)"
      proof
        fix c assume "c \<in> set (cs[i := updateAt p (on_elem g) (cs ! i)])"
        then have "c = updateAt p (on_elem g) (cs ! i) \<or> c \<in> set cs"
          using set_update_subset_insert [of cs i] by auto
        then show "text_only_errors c \<and> (is_error_message e \<longrightarrow> is_text c)"
          using Cons.IH [OF ci] Cons.prems Elem nth_mem [OF True] by auto
      qed
      then show ?thesis using Elem True by simp
    next
      case False
      then show ?thesis using Cons.prems Elem by simp
    qed
  qed
qed

lemma showError_stay:
  assumes toe: "text_only_errors form"
    and q: "querySelector P form = Some q"
    and sh: "showError form (Some q) message = Some form'"
    and at: "elem_at form s = Some e"
  shows "\<exists>e'. elem_at form' s = Some e' \<and> (s \<noteq> q \<longrightarrow> e' = e)
            \<and> is_error_message e' = is_error_message e"
proof -
  from querySelector_Some [OF q] obtain eq cq where
    ne: "q \<noteq> []" and nq: "nodeAt form q = Some (Elem eq cq)" by blast
  define form1 where "form1 = updateAt q (on_elem mark_invalid) form"
  define e1 where "e1 = (if s = q then mark_invalid e else e)"
  have a1: "elem_at form1 s = Some e1"
    using at by (auto simp: form1_def elem_at_mark e1_def)
  have em1: "is_error_message e1 = is_error_message e" by (simp add: e1_def)
  have toe1: "text_only_errors form1"
    unfolding form1_def by (rule text_only_errors_mark [OF _ toe]) simp
  have n1: "nodeAt form1 q = Some (Elem (mark_invalid eq) cq)"
    using nodeAt_updateAt_same [OF nq, of "on_elem mark_invalid"] by (simp add: form1_def)
  from nodeAt_butlast [OF n1 ne] obtain parent where
    par: "nodeAt form1 (butlast q) = Some parent" and
    li: "last q < length (children parent)" by blast
  obtain ep cp where pel: "parent = Elem ep cp" using li by (cases parent) auto
  have pe: "parentElement q = Some (butlast q)" using ne by (simp add: parentElement_def)
  have "elem_at form' s = Some e1"
  proof (cases "querySelector is_error_message parent")
    case None
    define form2 where "form2 = updateAt (butlast q) (appendChild new_error_span) form1"
    have f': "form' = updateAt (butlast q @ [length (children parent)]) (setTextContent message) form2"
      using sh par pe None
      by (simp add: showError_def form1_def [symmetric] form2_def Let_def)
    have a2: "elem_at form2 s = Some e1"
      unfolding form2_def
      by (rule stay_updateAt [where m = parent, OF _ par a1]) (rule stay_appendChild)
    have n2: "nodeAt form2 (butlast q) = Some (appendChild new_error_span parent)"
      unfolding form2_def by (rule nodeAt_updateAt_same [OF par])
    have n2': "nodeAt form2 (butlast q @ [length (children parent)]) = Some new_error_span"
      using n2 pel by (simp add: nodeAt_append new_error_span_def)
    show ?thesis
      unfolding f'
      by (rule stay_updateAt [where m = new_error_span, OF _ n2' a2])
         (rule stay_setTextContent, simp add: new_error_span_def)
  next
    case (Some r)
    have f': "form' = updateAt (butlast q @ r) (setTextContent message) form1"
      using sh par pe Some by (simp add: showError_def form1_def [symmetric] Let_def)
    from querySelector_Some [OF Some] obtain em mcs where
      m: "nodeAt parent r = Some (Elem em mcs)" and isem: "is_error_message em" by blast
    have nr: "nodeAt form1 (butlast q @ r) = Some (Elem em mcs)"
      using par m by (simp add: nodeAt_append)
    have tonly: "\<forall>c \<in> set (children (Elem em mcs)). is_text c"
      using text_only_errors_nodeAt [OF toe1 nr isem] by simp
    show ?thesis
      unfolding f'
      by (rule stay_updateAt [where m = "Elem em mcs", OF _ nr a1])
         (rule stay_setTextContent [OF tonly])
  qed
  then show ?thesis using em1 by (auto simp: e1_def)
qed


lemma elem_at_append:
  "elem_at n (p @ s) = (case nodeAt n p of None \<Rightarrow> None | Some m \<Rightarrow> elem_at m s)"
  by (simp add: elem_at_def nodeAt_append split: option.splits)

lemma elems_path: "(e \<in> set (elems n)) = (\<exists>s. elem_at n s = Some e)"
proof (induction n arbitrary: e)
  case (Text t)
  then show ?case using elem_at_is_text [of "Text t"] by simp
next
  case (Elem e0 cs)
  show ?case
  proof
    assume "e \<in> set (elems (Elem e0 cs))"
    then have "e = e0 \<or> (\<exists>c \<in> set cs. e \<in> set (elems c))" by auto
    then show "\<exists>s. elem_at (Elem e0 cs) s = Some e"
    proof
      assume "e = e0"
      then have "elem_at (Elem e0 cs) [] = Some e" by simp
      then show ?thesis by blast
    next
      assume "\<exists>c \<in> set cs. e \<in> set (elems c)"
      then obtain c where c: "c \<in> set cs" "e \<in> set (elems c)" by blast
      from c(1) obtain j where j: "j < length cs" "cs ! j = c" by (auto simp: in_set_conv_nth)
      from Elem [OF c(1)] c(2) obtain s where "elem_at c s = Some e" by blast
      with j have "elem_at (Elem e0 cs) (j # s) = Some e" by (simp add: elem_at_Cons)
      then show ?thesis by blast
    qed
  next
    assume "\<exists>s. elem_at (Elem e0 cs) s = Some e"
    then obtain s where s: "elem_at (Elem e0 cs) s = Some e" by blast
    show "e \<in> set (elems (Elem e0 cs))"
    proof (cases s)
      case Nil
      with s show ?thesis by simp
    next
      case (Cons j s')
      with s have j: "j < length cs" and a: "elem_at (cs ! j) s' = Some e"
        by (auto simp: elem_at_Cons split: if_splits)
      from Elem [OF nth_mem [OF j]] a have "e \<in> set (elems (cs ! j))" by blast
      then show ?thesis using nth_mem [OF j] by auto
    qed
  qed
qed

lemma descendants_path:
  "(e \<in> set (descendants n)) = (\<exists>s. s \<noteq> [] \<and> elem_at n s = Some e)"
proof
  assume "e \<in> set (descendants n)"
  then obtain c where c: "c \<in> set (children n)" "e \<in> set (elems c)"
    by (auto simp: descendants_def)
  from c(1) obtain j where j: "j < length (children n)" "children n ! j = c"
    by (auto simp: in_set_conv_nth)
  from c(2) obtain s where "elem_at c s = Some e" using elems_path by blast
  with j have "elem_at n (j # s) = Some e" by (simp add: elem_at_Cons)
  then show "\<exists>s. s \<noteq> [] \<and> elem_at n s = Some e" by blast
next
  assume "\<exists>s. s \<noteq> [] \<and> elem_at n s = Some e"
  then obtain j s where s: "elem_at n (j # s) = Some e" by (metis list.exhaust)
  then have j: "j < length (children n)" and a: "elem_at (children n ! j) s = Some e"
    by (auto simp: elem_at_Cons split: if_splits)
  from a have "e \<in> set (elems (children n ! j))" using elems_path by blast
  then show "e \<in> set (descendants n)" using nth_mem [OF j] by (auto simp: descendants_def)
qed

lemma has_error_message_path:
  "(querySelector is_error_message n \<noteq> None)
   = (\<exists>s e. s \<noteq> [] \<and> elem_at n s = Some e \<and> is_error_message e)"
proof -
  have "(querySelector is_error_message n \<noteq> None)
        = (\<exists>e. e \<in> set (descendants n) \<and> is_error_message e)"
    by (auto simp: querySelector_None)
  also have "\<dots> = (\<exists>e. (\<exists>s. s \<noteq> [] \<and> elem_at n s = Some e) \<and> is_error_message e)"
    by (simp only: descendants_path)
  also have "\<dots> = (\<exists>s e. s \<noteq> [] \<and> elem_at n s = Some e \<and> is_error_message e)"
    by blast
  finally show ?thesis .
qed

text \<open>
  C9. Take a form whose error message elements hold text only, as the ones
  \<^verbatim>\<open>showError\<close> creates do and as every session keeps them. When the email passes and
  the text area is missing or blank, validation fails without reaching
  \<^verbatim>\<open>clearErrors\<close>, and the email input keeps every property it had, so an error class
  and an \<^verbatim>\<open>aria-invalid\<close> attribute left by an earlier submission are still on it; and
  when the input's parent held an error message element it still holds one.
\<close>

theorem stale_email_error_kept:
  assumes "text_only_errors form"
    and "querySelector is_email form = Some p"
    and "trim (value_at form p) \<noteq> []" and "isValidEmail (value_at form p)"
    and "querySelector is_textarea form = None
         \<or> (\<exists>q. querySelector is_textarea form = Some q \<and> trim (value_at form q) = [])"
  shows "\<exists>form'. validateForm form = Some (False, form')
           \<and> elem_at form' p = elem_at form p
           \<and> (\<forall>parent. nodeAt form (butlast p) = Some parent
                  \<and> querySelector is_error_message parent \<noteq> None \<longrightarrow>
                (\<exists>parent'. nodeAt form' (butlast p) = Some parent'
                   \<and> querySelector is_error_message parent' \<noteq> None))"
  using assms(5)
proof
  assume "querySelector is_textarea form = None"
  then have "validateForm form = Some (False, form)"
    using assms(2,3,4) by (simp add: validateForm_def showError_def)
  then show ?thesis by auto
next
  assume "\<exists>q. querySelector is_textarea form = Some q \<and> trim (value_at form q) = []"
  then obtain q where q: "querySelector is_textarea form = Some q" "trim (value_at form q) = []"
    by blast
  have v: "validateForm form
           = map_option (Pair False) (showError form (Some q) (js ''Message is required''))"
    using assms(2,3,4) q by (simp add: validateForm_def)
  from showError_shown [OF q(1), of "js ''Message is required''"] obtain form' where
    sh: "showError form (Some q) (js ''Message is required'') = Some form'" by blast
  note stay = showError_stay [OF assms(1) q(1) sh]
  from querySelector_Some [OF assms(2)] obtain ee ce where
    pe: "nodeAt form p = Some (Elem ee ce)" "is_email ee" by blast
  from querySelector_Some [OF q(1)] obtain et ct where
    pt: "nodeAt form q = Some (Elem et ct)" "is_textarea et" by blast
  have neq: "p \<noteq> q"
    using pe pt by (auto simp: is_email_def is_textarea_def)
  have ea: "elem_at form p = Some ee" using pe by (simp add: elem_at_def)
  from stay [OF ea] neq have c2: "elem_at form' p = elem_at form p" using ea by auto
  have c3: "\<exists>parent'. nodeAt form' (butlast p) = Some parent'
                   \<and> querySelector is_error_message parent' \<noteq> None"
    if par: "nodeAt form (butlast p) = Some parent"
      and em: "querySelector is_error_message parent \<noteq> None" for parent
  proof -
    from em obtain s e where s: "s \<noteq> []" "elem_at parent s = Some e" "is_error_message e"
      using has_error_message_path by blast
    then have "elem_at form (butlast p @ s) = Some e" using par by (simp add: elem_at_append)
    from stay [OF this] obtain e' where
      e': "elem_at form' (butlast p @ s) = Some e'" "is_error_message e'"
      using s(3) by auto
    then obtain parent' where p': "nodeAt form' (butlast p) = Some parent'"
      "elem_at parent' s = Some e'"
      by (auto simp: elem_at_append split: option.splits)
    then have "querySelector is_error_message parent' \<noteq> None"
      using s(1) e'(2) has_error_message_path by blast
    with p'(1) show ?thesis by blast
  qed
  have "validateForm form = Some (False, form')" using v sh by simp
  then show ?thesis using c2 c3 by blast
qed

theorem stale_email_error_kept_witness:
  "validateForm (contact_form [] []) = Some (False, contact_form_email_error [] [])
   \<and> user_edit ([0, 0], js ''a@b.co'') (contact_form_email_error [] [])
       = contact_form_email_error (js ''a@b.co'') []
   \<and> (\<exists>form' e. validateForm (contact_form_email_error (js ''a@b.co'') []) = Some (False, form')
         \<and> elem_at form' [0, 0] = Some e \<and> has_error e \<and> aria_invalid e = Some (js ''true'')
         \<and> (\<exists>parent'. nodeAt form' [0] = Some parent'
               \<and> querySelector is_error_message parent' \<noteq> None))"
proof -
  define F where "F = contact_form_email_error (js ''a@b.co'') []"
  have a: "validateForm (contact_form [] []) = Some (False, contact_form_email_error [] [])"
    by (simp add: form_eval contact_form_email_error_def)
  have b: "user_edit ([0, 0], js ''a@b.co'') (contact_form_email_error [] []) = F"
    by (simp add: F_def contact_form_email_error_def plain_def user_edit_def)
  have h1: "text_only_errors F"
    by (simp add: F_def contact_form_email_error_def plain_def is_error_message_def
          class_contains_def)
  have h2: "querySelector is_email F = Some [0, 0]"
    by (simp add: F_def contact_form_email_error_def plain_def querySelector_def is_email_def)
  have va: "value_at F [0, 0] = js ''a@b.co''"
    by (simp add: F_def contact_form_email_error_def plain_def value_at_def elem_at_def)
  have h3: "trim (value_at F [0, 0]) \<noteq> []" and h4: "isValidEmail (value_at F [0, 0])"
    unfolding va by (simp_all add: isValidEmail_def js_def not_space_at_def is_space_def trim_def)
  have h5: "querySelector is_textarea F = None
         \<or> (\<exists>q. querySelector is_textarea F = Some q \<and> trim (value_at F q) = [])"
    by (simp add: F_def contact_form_email_error_def plain_def querySelector_def is_textarea_def
          value_at_def elem_at_def trim_def)
  have ea: "\<exists>e. elem_at F [0, 0] = Some e \<and> has_error e \<and> aria_invalid e = Some (js ''true'')"
    by (simp add: F_def contact_form_email_error_def plain_def elem_at_def has_error_def
          class_contains_def)
  have pa: "\<exists>parent. nodeAt F (butlast [0, 0]) = Some parent
              \<and> querySelector is_error_message parent \<noteq> None"
    by (simp add: F_def contact_form_email_error_def plain_def querySelector_def
          is_error_message_def class_contains_def)
  from stale_email_error_kept [OF h1 h2 h3 h4 h5] obtain form' where
    f: "validateForm F = Some (False, form')" "elem_at form' [0, 0] = elem_at F [0, 0]"
       "\<forall>parent. nodeAt F (butlast [0, 0]) = Some parent
            \<and> querySelector is_error_message parent \<noteq> None \<longrightarrow>
          (\<exists>parent'. nodeAt form' (butlast [0, 0]) = Some parent'
             \<and> querySelector is_error_message parent' \<noteq> None)"
    by blast
  from f(3) pa have "\<exists>parent'. nodeAt form' (butlast [0, 0]) = Some parent'
             \<and> querySelector is_error_message parent' \<noteq> None" by blast
  then have c: "\<exists>parent'. nodeAt form' [0] = Some parent'
             \<and> querySelector is_error_message parent' \<noteq> None" by simp
  from ea f(2) have d: "\<exists>e. elem_at form' [0, 0] = Some e \<and> has_error e
     \<and> aria_invalid e = Some (js ''true'')" by simp
  have "\<exists>form' e. validateForm F = Some (False, form')
         \<and> elem_at form' [0, 0] = Some e \<and> has_error e \<and> aria_invalid e = Some (js ''true'')
         \<and> (\<exists>parent'. nodeAt form' [0] = Some parent'
               \<and> querySelector is_error_message parent' \<noteq> None)"
    using f(1) c d by blast
  then show ?thesis using a b unfolding F_def by blast
qed

section \<open>The hypotheses on the form are kept by the handler\<close>

text \<open>
  Two properties of the form are assumed above: every element has at most one error
  message child, and error message elements hold text only. A third decides whether a
  successful submission leaves an \<^verbatim>\<open>aria-invalid\<close> attribute behind: that the
  attribute stands only on elements that carry the error class. The first was shown to
  survive every session; so do the other two. A form whose markup has them keeps them
  whatever is typed and submitted.
\<close>

lemma elems_appendChild:
  "set (elems (appendChild x m)) \<subseteq> set (elems m) \<union> set (elems x)"
  by (cases m) auto

lemma showError_pres:
  assumes all: "\<forall>e \<in> set (elems form). Q e"
    and mk: "\<And>e. Q e \<Longrightarrow> Q (mark_invalid e)"
    and sp: "\<forall>e \<in> set (elems new_error_span). Q e"
    and sh: "showError form el message = Some form'"
  shows "\<forall>e \<in> set (elems form'). Q e"
proof (cases el)
  case None
  with sh all show ?thesis by (simp add: showError_def)
next
  case (Some p)
  define form1 where "form1 = updateAt p (on_elem mark_invalid) form"
  have st: "\<forall>e \<in> set (elems (updateAt r (setTextContent message) n)). Q e"
    if "\<forall>e \<in> set (elems n). Q e" for r n
    by (rule elems_updateAt_pres [OF _ that]) (use elems_setTextContent in blast)
  have a1: "\<forall>e \<in> set (elems form1). Q e"
    unfolding form1_def
    by (rule elems_updateAt_pres [OF _ all]) (use mk elems_on_elem [of Q mark_invalid] in blast)
  have a2: "\<forall>e \<in> set (elems (updateAt r (appendChild new_error_span) form1)). Q e" for r
    by (rule elems_updateAt_pres [OF _ a1]) (use sp elems_appendChild in blast)
  show ?thesis
    using sh Some st [OF a1] st [OF a2]
    by (auto simp: showError_def form1_def [symmetric] Let_def split: option.splits)
qed

lemma clearErrors_elems_pres:
  assumes "\<forall>e \<in> set (elems form). Q e" "\<And>e. Q e \<Longrightarrow> Q (unmark e)"
  shows "\<forall>e \<in> set (elems (clearErrors form)). Q e"
proof (cases form)
  case (Text s)
  then show ?thesis by (simp add: clearErrors_def)
next
  case (Elem e0 cs)
  have d: "\<forall>e \<in> set (descendants form). Q e"
    using assms(1) Elem by (auto simp: descendants_def)
  have "\<forall>e \<in> set (descendants (clearErrors form)). Q e"
    by (rule clearErrors_pres [OF d assms(2)])
  moreover have "elems (clearErrors form) = e0 # descendants (clearErrors form)"
    using Elem by (simp add: clearErrors_def descendants_def)
  ultimately show ?thesis using assms(1) Elem by simp
qed

lemma validateForm_pres:
  assumes all: "\<forall>e \<in> set (elems form). Q e"
    and mk: "\<And>e. Q e \<Longrightarrow> Q (mark_invalid e)" and um: "\<And>e. Q e \<Longrightarrow> Q (unmark e)"
    and sp: "\<forall>e \<in> set (elems new_error_span). Q e"
    and v: "validateForm form = Some (ok, form')"
  shows "\<forall>e \<in> set (elems form'). Q e"
proof -
  note se = showError_pres [OF all mk sp]
  note ce = clearErrors_elems_pres [OF all um]
  from v show ?thesis
    unfolding validateForm_def Let_def
    using se ce by (auto split: if_splits)
qed

lemma handleSubmit_pres:
  assumes all: "\<forall>e \<in> set (elems form). Q e"
    and mk: "\<And>e. Q e \<Longrightarrow> Q (mark_invalid e)" and um: "\<And>e. Q e \<Longrightarrow> Q (unmark e)"
    and sp: "\<forall>e \<in> set (elems new_error_span). Q e"
    and di: "\<And>e. Q e \<Longrightarrow> Q (e\<lparr>disabled := True\<rparr>)"
    and h: "handleSubmit form = Some (form', ts)"
  shows "\<forall>e \<in> set (elems form'). Q e"
proof -
  from h obtain ok form1 where v: "validateForm form = Some (ok, form1)"
    by (auto simp: handleSubmit_def split: option.splits)
  have a1: "\<forall>e \<in> set (elems form1). Q e" by (rule validateForm_pres [OF all mk um sp v])
  have a2: "\<forall>e \<in> set (elems (updateAt b (setTextContent message_sent) form1)). Q e" for b
    by (rule elems_updateAt_pres [OF _ a1]) (use elems_setTextContent in blast)
  have a3: "\<forall>e \<in> set (elems (updateAt b (on_elem (\<lambda>e. e\<lparr>disabled := True\<rparr>))
                 (updateAt b (setTextContent message_sent) form1))). Q e" for b
    by (rule elems_updateAt_pres [OF _ a2])
       (use di elems_on_elem [of Q "\<lambda>e. e\<lparr>disabled := True\<rparr>"] in blast)
  from h v show ?thesis
    using a1 a3 by (auto simp: handleSubmit_def Let_def split: if_splits option.splits)
qed

lemma session_pres:
  assumes mk: "\<And>e. Q e \<Longrightarrow> Q (mark_invalid e)" and um: "\<And>e. Q e \<Longrightarrow> Q (unmark e)"
    and sp: "\<forall>e \<in> set (elems new_error_span). Q e"
    and di: "\<And>e. Q e \<Longrightarrow> Q (e\<lparr>disabled := True\<rparr>)"
    and ed: "\<And>e v. Q e \<Longrightarrow> Q (e\<lparr>val := v\<rparr>)"
  shows "\<forall>e \<in> set (elems form). Q e \<Longrightarrow> session rounds form = Some form' \<Longrightarrow>
           \<forall>e \<in> set (elems form'). Q e"
proof (induction rounds arbitrary: form)
  case Nil
  then show ?case by simp
next
  case (Cons edits rounds)
  have ue: "\<forall>e \<in> set (elems (fold user_edit es n)). Q e" if "\<forall>e \<in> set (elems n). Q e" for es n
    using that
  proof (induction es arbitrary: n)
    case Nil
    then show ?case by simp
  next
    case (Cons pv es)
    have "\<forall>e \<in> set (elems (user_edit pv n)). Q e"
      unfolding user_edit_def
      by (rule elems_updateAt_pres [OF _ Cons.prems])
         (use ed elems_on_elem [of Q "\<lambda>e. e\<lparr>val := snd pv\<rparr>"] in blast)
    from Cons.IH [OF this] show ?case by simp
  qed
  from Cons.prems(2) obtain form1 ts where
    h: "handleSubmit (fold user_edit edits form) = Some (form1, ts)"
    and s: "session rounds form1 = Some form'"
    by (auto split: option.splits)
  have "\<forall>e \<in> set (elems form1). Q e"
    by (rule handleSubmit_pres [OF ue [OF Cons.prems(1)] mk um sp di h])
  from Cons.IH [OF this s] show ?case .
qed

lemma aria_only_with_error_invariant:
  assumes "\<forall>e \<in> set (elems form). aria_invalid e \<noteq> None \<longrightarrow> has_error e"
    and "session rounds form = Some form'"
  shows "\<forall>e \<in> set (elems form'). aria_invalid e \<noteq> None \<longrightarrow> has_error e"
  by (rule session_pres [where Q = "\<lambda>e. aria_invalid e \<noteq> None \<longrightarrow> has_error e", OF _ _ _ _ _ assms])
     (auto simp: mark_invalid_def unmark_def has_error_def new_error_span_def class_contains_def
        class_add_def)

lemma is_text_updateAt:
  "nodeAt n p = Some m \<Longrightarrow> is_text (f m) = is_text m \<Longrightarrow> is_text (updateAt p f n) = is_text n"
  by (cases p; cases n) (auto split: if_splits)

lemma text_only_errors_nodeAt_sub:
  "text_only_errors n \<Longrightarrow> nodeAt n r = Some m \<Longrightarrow> text_only_errors m"
proof (induction r arbitrary: n)
  case Nil
  then show ?case by simp
next
  case (Cons i r)
  show ?case
  proof (cases n)
    case (Text t)
    with Cons.prems show ?thesis by simp
  next
    case (Elem e cs)
    from Cons.prems(2) Elem have i: "i < length cs" and at: "nodeAt (cs ! i) r = Some m"
      by (auto split: if_splits)
    have "text_only_errors (cs ! i)" using Cons.prems(1) Elem nth_mem [OF i] by auto
    from Cons.IH [OF this at] show ?thesis .
  qed
qed

lemma text_only_errors_updateAt:
  assumes "text_only_errors (f m)" "is_text (f m) = is_text m"
  shows "nodeAt n p = Some m \<Longrightarrow> text_only_errors n \<Longrightarrow> text_only_errors (updateAt p f n)"
proof (induction p arbitrary: n)
  case Nil
  then show ?case using assms by simp
next
  case (Cons i p)
  show ?case
  proof (cases n)
    case (Text t)
    then show ?thesis by simp
  next
    case (Elem e cs)
    from Cons.prems(1) Elem have i: "i < length cs" and at: "nodeAt (cs ! i) p = Some m"
      by (auto split: if_splits)
    have ci: "text_only_errors (cs ! i)" using Cons.prems(2) Elem nth_mem [OF i] by auto
    have c': "text_only_errors (updateAt p f (cs ! i))" by (rule Cons.IH [OF at ci])
    have tx: "is_text (updateAt p f (cs ! i)) = is_text (cs ! i)"
      by (rule is_text_updateAt [of "cs ! i" p m f, OF at assms(2)])
    have "\<forall>c \<in> set (cs[i := updateAt p f (cs ! i)]).
            text_only_errors c \<and> (is_error_message e \<longrightarrow> is_text c)"
    proof
      fix c assume "c \<in> set (cs[i := updateAt p f (cs ! i)])"
      then have "c = updateAt p f (cs ! i) \<or> c \<in> set cs"
        using set_update_subset_insert [of cs i] by auto
      then show "text_only_errors c \<and> (is_error_message e \<longrightarrow> is_text c)"
        using c' tx Cons.prems(2) Elem nth_mem [OF i] by auto
    qed
    then show ?thesis using Elem i by simp
  qed
qed

lemma text_only_errors_setTextContent_at:
  "text_only_errors n \<Longrightarrow> text_only_errors (updateAt p (setTextContent s) n)"
proof (cases "nodeAt n p")
  case None
  assume "text_only_errors n"
  with None show ?thesis by (simp add: updateAt_invalid)
next
  case (Some m)
  assume a: "text_only_errors n"
  have "text_only_errors (setTextContent s m)" "is_text (setTextContent s m) = is_text m"
    by (cases m; simp)+
  from text_only_errors_updateAt [of "setTextContent s" m n p, OF this Some a] show ?thesis .
qed

lemma showError_text_only_errors:
  assumes toe: "text_only_errors form"
    and q: "querySelector P form = Some p"
    and sh: "showError form (Some p) message = Some form'"
  shows "text_only_errors form'"
proof -
  from querySelector_Some [OF q] obtain ei ci where
    ne: "p \<noteq> []" and np: "nodeAt form p = Some (Elem ei ci)" by blast
  define form1 where "form1 = updateAt p (on_elem mark_invalid) form"
  have toe1: "text_only_errors form1"
    unfolding form1_def by (rule text_only_errors_mark [OF _ toe]) simp
  have n1: "nodeAt form1 p = Some (Elem (mark_invalid ei) ci)"
    using nodeAt_updateAt_same [OF np, of "on_elem mark_invalid"] by (simp add: form1_def)
  from nodeAt_butlast [OF n1 ne] obtain parent where
    par: "nodeAt form1 (butlast p) = Some parent" and
    li: "last p < length (children parent)" and
    ch: "children parent ! last p = Elem (mark_invalid ei) ci" by blast
  obtain ep cp where pel: "parent = Elem ep cp" using li by (cases parent) auto
  have toep: "text_only_errors parent" by (rule text_only_errors_nodeAt_sub [OF toe1 par])
  have nem: "\<not> is_error_message ep"
  proof
    assume "is_error_message ep"
    with toep pel have "is_text (cp ! last p)" using nth_mem [of "last p" cp] li by auto
    with ch pel show False by simp
  qed
  have pe: "parentElement p = Some (butlast p)" using ne by (simp add: parentElement_def)
  show ?thesis
  proof (cases "querySelector is_error_message parent")
    case None
    define form2 where "form2 = updateAt (butlast p) (appendChild new_error_span) form1"
    have f': "form' = updateAt (butlast p @ [length (children parent)]) (setTextContent message) form2"
      using sh par pe None
      by (simp add: showError_def form1_def [symmetric] form2_def Let_def)
    have "text_only_errors (appendChild new_error_span parent)"
      "is_text (appendChild new_error_span parent) = is_text parent"
      using toep nem pel by (auto simp: new_error_span_def)
    from text_only_errors_updateAt [of "appendChild new_error_span" parent form1 "butlast p",
        OF this par toe1]
    have "text_only_errors form2" by (simp add: form2_def)
    then show ?thesis unfolding f' by (rule text_only_errors_setTextContent_at)
  next
    case (Some r)
    have f': "form' = updateAt (butlast p @ r) (setTextContent message) form1"
      using sh par pe Some by (simp add: showError_def form1_def [symmetric] Let_def)
    show ?thesis unfolding f' by (rule text_only_errors_setTextContent_at [OF toe1])
  qed
qed

lemma text_only_errors_unmark_all: "text_only_errors n \<Longrightarrow> text_only_errors (unmark_all n)"
proof (induction n)
  case (Text s)
  then show ?case by simp
next
  case (Elem e cs)
  have "is_text (unmark_all c) = is_text c" for c by (cases c) simp_all
  then show ?case using Elem by auto
qed

lemma text_only_errors_remove:
  "text_only_errors n \<Longrightarrow> text_only_errors (remove_error_messages n)"
proof (induction n)
  case (Text s)
  then show ?case by simp
next
  case (Elem e cs)
  have "is_text (remove_error_messages c) = is_text c" for c by (cases c) simp_all
  then show ?case using Elem by auto
qed

lemma text_only_errors_clearErrors:
  "text_only_errors form \<Longrightarrow> text_only_errors (clearErrors form)"
proof -
  assume a: "text_only_errors form"
  have "text_only_errors (on_children unmark_all form)"
  proof (cases form)
    case (Text s)
    then show ?thesis by simp
  next
    case (Elem e cs)
    have "is_text (unmark_all c) = is_text c" for c by (cases c) simp_all
    then show ?thesis using a Elem text_only_errors_unmark_all by auto
  qed
  then show ?thesis unfolding clearErrors_def by (rule text_only_errors_remove)
qed

lemma validateForm_text_only_errors:
  assumes "text_only_errors form" "validateForm form = Some (ok, form')"
  shows "text_only_errors form'"
proof -
  have sh: "text_only_errors f"
    if "showError form (querySelector P form) m = Some f" for P m f
  proof (cases "querySelector P form")
    case None
    with that assms(1) show ?thesis by (simp add: showError_def)
  next
    case (Some p)
    with that showError_text_only_errors [OF assms(1) Some] show ?thesis by simp
  qed
  from assms(2) show ?thesis
    unfolding validateForm_def Let_def
    using sh [of is_email] sh [of is_textarea] text_only_errors_clearErrors [OF assms(1)]
    by (auto split: if_splits)
qed

lemma handleSubmit_text_only_errors:
  assumes "text_only_errors form" "handleSubmit form = Some (form', ts)"
  shows "text_only_errors form'"
proof -
  from assms(2) obtain ok form1 where v: "validateForm form = Some (ok, form1)"
    by (auto simp: handleSubmit_def split: option.splits)
  have a1: "text_only_errors form1" by (rule validateForm_text_only_errors [OF assms(1) v])
  have a3: "text_only_errors (updateAt b (on_elem (\<lambda>e. e\<lparr>disabled := True\<rparr>))
              (updateAt b (setTextContent message_sent) form1))" for b
    by (rule text_only_errors_mark [OF _ text_only_errors_setTextContent_at [OF a1]])
       (simp add: is_error_message_def)
  from assms(2) v show ?thesis
    using a1 a3 by (auto simp: handleSubmit_def Let_def split: if_splits option.splits)
qed

lemma text_only_errors_invariant:
  "text_only_errors form \<Longrightarrow> session rounds form = Some form' \<Longrightarrow> text_only_errors form'"
proof (induction rounds arbitrary: form)
  case Nil
  then show ?case by simp
next
  case (Cons edits rounds)
  have ue: "text_only_errors (fold user_edit es n)" if "text_only_errors n" for es n
    using that
  proof (induction es arbitrary: n)
    case Nil
    then show ?case by simp
  next
    case (Cons pv es)
    have "text_only_errors (user_edit pv n)"
      unfolding user_edit_def
      by (rule text_only_errors_mark [OF _ Cons.prems]) (simp add: is_error_message_def)
    from Cons.IH [OF this] show ?case by simp
  qed
  from Cons.prems(2) obtain form1 ts where
    h: "handleSubmit (fold user_edit edits form) = Some (form1, ts)"
    and s: "session rounds form1 = Some form'"
    by (auto split: option.splits)
  have "text_only_errors form1"
    by (rule handleSubmit_text_only_errors [OF ue [OF Cons.prems(1)] h])
  from Cons.IH [OF this s] show ?case .
qed

end
